theory Spec2Isabelle
  imports Complex_Main "HOL-Library.Sublist"
begin

section \<open>errors.py: the error\_handler decorator\<close>

text \<open>
  Exceptions are values. The decorator distinguishes three classes:
  \<^item> \<open>CancelledError\<close>: \<^verbatim>\<open>asyncio.CancelledError\<close>, which derives from
    \<^verbatim>\<open>BaseException\<close> and not from \<^verbatim>\<open>Exception\<close> on every Python the
    imported aiogram 3 runs on (3.8 and later);
  \<^item> \<open>BaseExc\<close>: the other exceptions outside \<^verbatim>\<open>Exception\<close>
    (\<^verbatim>\<open>KeyboardInterrupt\<close>, \<^verbatim>\<open>SystemExit\<close>, \<^verbatim>\<open>GeneratorExit\<close>);
  \<^item> \<open>Exc\<close>: instances of \<^verbatim>\<open>Exception\<close>.
\<close>

datatype exn = CancelledError | BaseExc string | Exc string

fun isinstance_Exception :: "exn \<Rightarrow> bool" where
  "isinstance_Exception CancelledError = False"
| "isinstance_Exception (BaseExc n) = False"
| "isinstance_Exception (Exc n) = True"

datatype 'a outcome = Returns 'a | Raises exn

record 'a handler_args =
  default_return :: 'a
  re_raise :: bool
  retries :: int

text \<open>
  The decorated coroutine \<^verbatim>\<open>func(*args, **kwargs)\<close> may be awaited several times by the
  retry loop, so it is given as the outcome of its \<open>k\<close>-th call (from 0). Between two
  attempts tenacity sleeps (\<^verbatim>\<open>wait_exponential\<close>); \<open>cancelled k\<close> says that the task is
  cancelled during the sleep that follows attempt \<open>k\<close>.

  \<open>wrapped func cancelled k n\<close> is the tenacity loop of \<^verbatim>\<open>wrapped()\<close> at attempt \<open>k\<close>
  with \<open>n\<close> further attempts allowed: \<^verbatim>\<open>retry_if_exception_type(Exception)\<close> retries
  only an \<^verbatim>\<open>Exception\<close>, \<^verbatim>\<open>stop_after_attempt(retries)\<close> bounds the attempts and
  \<^verbatim>\<open>reraise=True\<close> raises the last exception itself.
\<close>

fun wrapped :: "(nat \<Rightarrow> 'a outcome) \<Rightarrow> (nat \<Rightarrow> bool) \<Rightarrow> nat \<Rightarrow> nat \<Rightarrow> 'a outcome" where
  "wrapped func cancelled k 0 = func k"
| "wrapped func cancelled k (Suc n) =
     (case func k of
        Returns v \<Rightarrow> Returns v
      | Raises e \<Rightarrow>
          if isinstance_Exception e
          then (if cancelled k then Raises CancelledError
                else wrapped func cancelled (Suc k) n)
          else Raises e)"

text \<open>The body of the \<^verbatim>\<open>try\<close> block of \<^verbatim>\<open>wrapper\<close> (errors.py, lines 72-93).\<close>

definition try_body ::
  "'a handler_args \<Rightarrow> (nat \<Rightarrow> 'a outcome) \<Rightarrow> (nat \<Rightarrow> bool) \<Rightarrow> 'a outcome" where
  "try_body a func cancelled =
     (if retries a > 0 then wrapped func cancelled 0 (nat (retries a) - 1)
      else func 0)"

text \<open>
  \<^verbatim>\<open>wrapper\<close> (errors.py, lines 69-109): the result and the exceptions passed to
  \<^verbatim>\<open>logger.exception\<close>. The clause \<^verbatim>\<open>except Exception\<close> does not catch what is not an
  \<^verbatim>\<open>Exception\<close>; inside it, the \<^verbatim>\<open>isinstance(exc, asyncio.CancelledError)\<close> test comes
  before the logging.
\<close>

definition wrapper ::
  "'a handler_args \<Rightarrow> (nat \<Rightarrow> 'a outcome) \<Rightarrow> (nat \<Rightarrow> bool) \<Rightarrow> 'a outcome \<times> exn list" where
  "wrapper a func cancelled =
     (case try_body a func cancelled of
        Returns result \<Rightarrow> (Returns result, [])
      | Raises exc \<Rightarrow>
          if isinstance_Exception exc
          then (if exc = CancelledError then (Raises exc, [])
                else if re_raise a then (Raises exc, [exc])
                else (Returns (default_return a), [exc]))
          else (Raises exc, []))"

text \<open>
  \<open>attempts\<close>: how many times \<^verbatim>\<open>wrapper\<close> may call the decorated coroutine
  (\<^verbatim>\<open>stop_after_attempt(retries)\<close>, or the single call when \<^verbatim>\<open>retries\<close> is not
  positive). The other constants are decorated coroutines and pauses used as examples.
\<close>

definition attempts :: "'a handler_args \<Rightarrow> nat" where
  "attempts a = (if retries a > 0 then nat (retries a) else 1)"

definition interrupted :: "nat \<Rightarrow> string outcome" where
  "interrupted k = Raises (BaseExc ''KeyboardInterrupt'')"

definition never :: "nat \<Rightarrow> bool" where
  "never k = False"

definition fails_thrice :: "nat \<Rightarrow> string outcome" where
  "fails_thrice k =
     (if k = 0 then Raises (Exc ''timeout'')
      else if k = 1 then Raises (Exc ''unavailable'')
      else Raises (Exc ''boom''))"

definition fails_then_cancelled :: "nat \<Rightarrow> string outcome" where
  "fails_then_cancelled k = (if k = 0 then Raises (Exc ''timeout'') else Raises CancelledError)"

definition fails_then_returns :: "nat \<Rightarrow> string outcome" where
  "fails_then_returns k = (if k = 0 then Raises (Exc ''timeout'') else Returns ''text'')"

section \<open>gpt\_requests.py: TaskRequest and RequestDispatcher\<close>

text \<open>
  The dispatcher runs on one asyncio event loop: coroutines interleave only at their
  \<^verbatim>\<open>await\<close>s. The model is a transition system whose steps are the code segments
  between two suspension points; an event names the \<^verbatim>\<open>await\<close> that completes and
  carries what the environment decides there (the outcome of a bot API call, the outcome
  of the awaited \<^verbatim>\<open>func_to_call\<close>, the clock). An \<^verbatim>\<open>await\<close> that may complete without
  suspending (\<^verbatim>\<open>queue.get()\<close> on a non-empty queue, a limiter with capacity) is still
  a step of its own: every run of the code is a run of the model.

  A \<^verbatim>\<open>TaskRequest\<close> object is identified by a number (the count of requests created
  before it); its immutable fields live in the heap \<open>requests\<close>, and the future it
  refers to in the store \<open>futures\<close>.
\<close>

type_synonym tid = nat

record task_request =
  user_id :: int
  chat_id :: int
  position_msg_id :: int

text \<open>
  An \<^verbatim>\<open>asyncio.Future\<close>: pending, finished with a result, finished with an exception,
  or cancelled. \<^verbatim>\<open>set_result\<close> raises \<^verbatim>\<open>InvalidStateError\<close> (here \<open>None\<close>) unless
  the future is pending.
\<close>

datatype future = Pending | Result string | Failed exn | Cancelled

fun set_result :: "string \<Rightarrow> future \<Rightarrow> future option" where
  "set_result v Pending = Some (Result v)"
| "set_result v f = None"

text \<open>
  The notification sink is the aiogram \<^verbatim>\<open>Bot\<close>. A call succeeds, raises a
  \<^verbatim>\<open>TelegramAPIError\<close>, or raises another \<^verbatim>\<open>Exception\<close>.
\<close>

datatype sink_outcome = Ok | TelegramAPIError | OtherError

datatype message_text = Adding_text | Position_text nat nat | In_progress_text

datatype bot_call =
    Send_message int message_text
  | Edit_message_text int int message_text
  | Delete_message int int

datatype log_entry =
    Exc_enqueue_message
  | Exc_position_edit
  | Warn_position_edit
  | Warn_in_progress
  | Warn_finished
  | Exc_process_task

datatype work_outcome = Work_returns string | Work_raises

text \<open>
  Where each coroutine is suspended. A call of \<^verbatim>\<open>add_request\<close> is a call by
  \<^verbatim>\<open>ask_gpt_in_queue\<close>, its only caller, which runs in a task of its own and awaits
  the future as soon as \<^verbatim>\<open>add_request\<close> returns it: \<open>Returned req\<close> is that
  \<^verbatim>\<open>await future\<close>. \<open>Worker_failed\<close>: an exception has left \<^verbatim>\<open>worker\<close>. The
  constructors \<open>Worker_cancelled\<close> (with the request the worker held, if any),
  \<open>Updater_cancelled\<close> and \<open>Call_cancelled\<close> are tasks ended by cancellation.
\<close>

datatype worker_pc =
    Queue_get
  | Limiter_sec tid
  | Limiter_hour tid
  | Semaphore tid
  | Worker_failed
  | Worker_cancelled "tid list"

datatype process_pc = Notify_in_progress | Func_to_call | Notify_finished | Finished

datatype updater_pc = Sleeping | Updating "(nat \<times> tid) list" nat | Updater_cancelled

datatype adder_pc =
    Sending int int
  | Adder_updating tid real "(nat \<times> tid) list" nat
  | Returned tid
  | Call_cancelled

text \<open>
  The fields of \<^verbatim>\<open>RequestDispatcher\<close> (\<open>queue\<close> and \<open>unfinished_tasks\<close> are
  \<^verbatim>\<open>queue._queue\<close> and \<^verbatim>\<open>queue._unfinished_tasks\<close>; \<open>semaphore\<close> is the
  semaphore's value; of each limiter the number of tokens handed out is kept here, and
  its timing with the rate limiters below), the heap, the coroutines, and what the
  bot and the logger have received. \<open>enqueued\<close>, \<open>dequeued\<close> and \<open>spawned\<close> are
  history variables: the requests in the order of \<^verbatim>\<open>queue.put\<close>, of
  \<^verbatim>\<open>queue.get\<close> and of \<^verbatim>\<open>asyncio.create_task(self.process_task(...))\<close>.
  \<open>submitter\<close> gives, for a request, the call of \<^verbatim>\<open>add_request\<close> that created it, whose
  local variable \<^verbatim>\<open>future\<close> is the request's future.
\<close>

record state =
  queue :: "tid list"
  unfinished_tasks :: int
  semaphore :: nat
  limiter_sec_acquired :: nat
  limiter_hour_acquired :: nat
  last_position_update :: real
  active_requests :: "tid set"
  next_tid :: tid
  requests :: "tid \<Rightarrow> task_request"
  futures :: "tid \<rightharpoonup> future"
  worker_task :: worker_pc
  processes :: "tid \<rightharpoonup> process_pc"
  status_updater_task :: updater_pc
  adders :: "nat \<rightharpoonup> adder_pc"
  submitter :: "tid \<rightharpoonup> nat"
  bot_calls :: "(bot_call \<times> sink_outcome) list"
  logged :: "log_entry list"
  enqueued :: "tid list"
  dequeued :: "tid list"
  spawned :: "tid list"

definition update_interval :: real where
  "update_interval = 5"

text \<open>\<^verbatim>\<open>RequestDispatcher.__init__\<close> (lines 106-120).\<close>

definition init :: "nat \<Rightarrow> state" where
  "init max_tasks =
     \<lparr>queue = [], unfinished_tasks = 0, semaphore = max_tasks,
      limiter_sec_acquired = 0, limiter_hour_acquired = 0,
      last_position_update = 0, active_requests = {}, next_tid = 0,
      requests = (\<lambda>t. \<lparr>user_id = 0, chat_id = 0, position_msg_id = 0\<rparr>),
      futures = Map.empty, worker_task = Queue_get, processes = Map.empty,
      status_updater_task = Sleeping, adders = Map.empty, submitter = Map.empty,
      bot_calls = [], logged = [], enqueued = [], dequeued = [], spawned = []\<rparr>"

definition bot_called :: "bot_call \<Rightarrow> sink_outcome \<Rightarrow> state \<Rightarrow> state" where
  "bot_called c out s = s\<lparr>bot_calls := bot_calls s @ [(c, out)]\<rparr>"

definition log_entry :: "log_entry \<Rightarrow> state \<Rightarrow> state" where
  "log_entry e s = s\<lparr>logged := logged s @ [e]\<rparr>"

text \<open>
  The three notification helpers (lines 228-285). Each returns whether an exception
  leaves it: only \<^verbatim>\<open>TelegramAPIError\<close> is caught (and logged as a warning).
\<close>

definition edit_position_message ::
  "sink_outcome \<Rightarrow> tid \<Rightarrow> nat \<Rightarrow> nat \<Rightarrow> state \<Rightarrow> bool \<times> state" where
  "edit_position_message out req pos ntotal s =
     (let s1 = bot_called (Edit_message_text (chat_id (requests s req))
                 (position_msg_id (requests s req)) (Position_text pos ntotal)) out s
      in case out of
           Ok \<Rightarrow> (False, s1)
         | TelegramAPIError \<Rightarrow> (False, log_entry Warn_position_edit s1)
         | OtherError \<Rightarrow> (True, s1))"

definition notify_in_progress :: "sink_outcome \<Rightarrow> tid \<Rightarrow> state \<Rightarrow> bool \<times> state" where
  "notify_in_progress out req s =
     (let s1 = bot_called (Edit_message_text (chat_id (requests s req))
                 (position_msg_id (requests s req)) In_progress_text) out s
      in case out of
           Ok \<Rightarrow> (False, s1)
         | TelegramAPIError \<Rightarrow> (False, log_entry Warn_in_progress s1)
         | OtherError \<Rightarrow> (True, s1))"

definition notify_finished :: "sink_outcome \<Rightarrow> tid \<Rightarrow> state \<Rightarrow> bool \<times> state" where
  "notify_finished out req s =
     (let s1 = bot_called (Delete_message (chat_id (requests s req))
                 (position_msg_id (requests s req))) out s
      in case out of
           Ok \<Rightarrow> (False, s1)
         | TelegramAPIError \<Rightarrow> (False, log_entry Warn_finished s1)
         | OtherError \<Rightarrow> (True, s1))"

text \<open>
  One iteration of the loop of \<^verbatim>\<open>update_positions\<close> (lines 221-226), resumed when the
  edit of the item \<open>(idx, req)\<close> of \<^verbatim>\<open>enumerate(snapshot)\<close> settles: whatever
  \<^verbatim>\<open>_edit_position_message\<close> raises is caught and logged.
\<close>

definition update_positions_item ::
  "sink_outcome \<Rightarrow> nat \<times> tid \<Rightarrow> nat \<Rightarrow> state \<Rightarrow> state" where
  "update_positions_item out item ntotal s =
     (case edit_position_message out (snd item) (fst item + 1) ntotal s of
        (True, s1) \<Rightarrow> log_entry Exc_position_edit s1
      | (False, s1) \<Rightarrow> s1)"

text \<open>
  \<^verbatim>\<open>process_task\<close> (lines 133-150), in its three segments. \<open>process_finally\<close> is
  the \<^verbatim>\<open>finally\<close> clause, \<^verbatim>\<open>self.active_requests.discard(task_request)\<close>;
  \<open>process_return\<close> is the end of the coroutine; \<open>process_except\<close> is the
  \<^verbatim>\<open>except Exception\<close> clause, followed by \<^verbatim>\<open>finally\<close> and the end. In \<open>process_called\<close> the future of the request is
  looked up in the store; a request without a future does not exist in the code, and the
  model treats it like a failed \<^verbatim>\<open>set_result\<close>.
\<close>

definition process_finally :: "tid \<Rightarrow> state \<Rightarrow> state" where
  "process_finally req s = s\<lparr>active_requests := active_requests s - {req}\<rparr>"

definition process_return :: "tid \<Rightarrow> state \<Rightarrow> state" where
  "process_return req s = s\<lparr>processes := (processes s)(req \<mapsto> Finished)\<rparr>"

definition process_except :: "tid \<Rightarrow> state \<Rightarrow> state" where
  "process_except req s =
     process_return req (process_finally req (log_entry Exc_process_task s))"

definition process_notified :: "sink_outcome \<Rightarrow> tid \<Rightarrow> state \<Rightarrow> state" where
  "process_notified out req s =
     (case notify_in_progress out req s of
        (True, s1) \<Rightarrow> process_except req s1
      | (False, s1) \<Rightarrow> s1\<lparr>processes := (processes s1)(req \<mapsto> Func_to_call)\<rparr>)"

definition process_called :: "work_outcome \<Rightarrow> tid \<Rightarrow> state \<Rightarrow> state" where
  "process_called w req s =
     (case w of
        Work_raises \<Rightarrow> process_except req s
      | Work_returns result_text \<Rightarrow>
          (case futures s req of
             None \<Rightarrow> process_except req s
           | Some f \<Rightarrow>
               (case set_result result_text f of
                  None \<Rightarrow> process_except req s
                | Some f' \<Rightarrow>
                    s\<lparr>futures := (futures s)(req \<mapsto> f'),
                      processes := (processes s)(req \<mapsto> Notify_finished)\<rparr>)))"

definition process_deleted :: "sink_outcome \<Rightarrow> tid \<Rightarrow> state \<Rightarrow> state" where
  "process_deleted out req s =
     (case notify_finished out req s of
        (True, s1) \<Rightarrow> process_except req s1
      | (False, s1) \<Rightarrow> process_return req (process_finally req s1))"

text \<open>
  \<^verbatim>\<open>worker\<close> (lines 122-131). \<open>worker_got\<close>: \<^verbatim>\<open>queue.get()\<close> returns the head of the
  queue and the request is added to \<open>active_requests\<close>. \<open>worker_admit\<close>: the
  semaphore, last of the three context managers, is acquired; the body of the
  \<^verbatim>\<open>async with\<close> creates the task; leaving the block releases the semaphore (the
  limiters' \<^verbatim>\<open>__aexit__\<close> do nothing); then \<^verbatim>\<open>queue.task_done()\<close>, which raises
  \<^verbatim>\<open>ValueError\<close> when no task is unfinished. None of this suspends.
\<close>

definition worker_got :: "state \<Rightarrow> state option" where
  "worker_got s =
     (case queue s of
        [] \<Rightarrow> None
      | req # rest \<Rightarrow>
          Some (s\<lparr>queue := rest, dequeued := dequeued s @ [req],
                  active_requests := insert req (active_requests s),
                  worker_task := Limiter_sec req\<rparr>))"

definition semaphore_acquire :: "state \<Rightarrow> state" where
  "semaphore_acquire s = s\<lparr>semaphore := semaphore s - 1\<rparr>"

definition semaphore_release :: "state \<Rightarrow> state" where
  "semaphore_release s = s\<lparr>semaphore := semaphore s + 1\<rparr>"

definition create_process_task :: "tid \<Rightarrow> state \<Rightarrow> state" where
  "create_process_task req s =
     s\<lparr>processes := (processes s)(req \<mapsto> Notify_in_progress),
       spawned := spawned s @ [req]\<rparr>"

definition task_done :: "state \<Rightarrow> state" where
  "task_done s =
     (if unfinished_tasks s \<le> 0 then s\<lparr>worker_task := Worker_failed\<rparr>
      else s\<lparr>unfinished_tasks := unfinished_tasks s - 1, worker_task := Queue_get\<rparr>)"

definition worker_admit :: "tid \<Rightarrow> state \<Rightarrow> state option" where
  "worker_admit req s =
     (if semaphore s = 0 then None
      else Some (task_done (semaphore_release
                   (create_process_task req (semaphore_acquire s)))))"

text \<open>
  \<^verbatim>\<open>add_request\<close> (lines 163-213), resumed when \<^verbatim>\<open>send_message\<close> settles: the
  fallback message id 0, the future, the request, \<^verbatim>\<open>queue.put\<close>, the clock test, and
  the snapshot of \<^verbatim>\<open>update_positions\<close> when it is called.
\<close>

definition queue_put :: "tid \<Rightarrow> state \<Rightarrow> state" where
  "queue_put req s =
     s\<lparr>queue := queue s @ [req], unfinished_tasks := unfinished_tasks s + 1,
       enqueued := enqueued s @ [req]\<rparr>"

definition add_request_sent ::
  "nat \<Rightarrow> int \<Rightarrow> int \<Rightarrow> sink_outcome \<Rightarrow> int \<Rightarrow> real \<Rightarrow> state \<Rightarrow> state" where
  "add_request_sent cid user chat out message_id current_time s =
     (let s1 = bot_called (Send_message chat Adding_text) out s;
          s2 = (if out = Ok then s1 else log_entry Exc_enqueue_message s1);
          msg_id = (if out = Ok then message_id else 0);
          req = next_tid s2;
          s3 = s2\<lparr>next_tid := Suc req,
                  futures := (futures s2)(req \<mapsto> Pending),
                  submitter := (submitter s2)(req \<mapsto> cid),
                  requests := (requests s2)
                    (req := \<lparr>user_id = user, chat_id = chat, position_msg_id = msg_id\<rparr>)\<rparr>;
          s4 = queue_put req s3
      in if current_time - last_position_update s4 \<ge> update_interval
         then (case List.enumerate 0 (queue s4) of
                 [] \<Rightarrow> s4\<lparr>last_position_update := current_time,
                          adders := (adders s4)(cid \<mapsto> Returned req)\<rparr>
               | items \<Rightarrow>
                   s4\<lparr>adders := (adders s4)
                        (cid \<mapsto> Adder_updating req current_time items (length (queue s4)))\<rparr>)
         else s4\<lparr>adders := (adders s4)(cid \<mapsto> Returned req)\<rparr>)"

definition add_request_edited ::
  "nat \<Rightarrow> tid \<Rightarrow> real \<Rightarrow> nat \<times> tid \<Rightarrow> (nat \<times> tid) list \<Rightarrow> nat \<Rightarrow> sink_outcome \<Rightarrow>
   state \<Rightarrow> state" where
  "add_request_edited cid req current_time item rest ntotal out s =
     (let s1 = update_positions_item out item ntotal s
      in if rest = []
         then s1\<lparr>last_position_update := current_time,
                 adders := (adders s1)(cid \<mapsto> Returned req)\<rparr>
         else s1\<lparr>adders := (adders s1)
                   (cid \<mapsto> Adder_updating req current_time rest ntotal)\<rparr>)"

text \<open>
  \<^verbatim>\<open>periodic_status_update\<close> (lines 152-161): after each sleep it calls
  \<^verbatim>\<open>update_positions\<close>, which snapshots the queue; nothing leaves
  \<^verbatim>\<open>update_positions\<close>, since its loop catches every \<^verbatim>\<open>Exception\<close>.
\<close>

definition updater_woke :: "state \<Rightarrow> state" where
  "updater_woke s =
     (case List.enumerate 0 (queue s) of
        [] \<Rightarrow> s
      | items \<Rightarrow> s\<lparr>status_updater_task := Updating items (length (queue s))\<rparr>)"

definition updater_edited ::
  "nat \<times> tid \<Rightarrow> (nat \<times> tid) list \<Rightarrow> nat \<Rightarrow> sink_outcome \<Rightarrow> state \<Rightarrow> state" where
  "updater_edited item rest ntotal out s =
     (update_positions_item out item ntotal s)
       \<lparr>status_updater_task := (if rest = [] then Sleeping else Updating rest ntotal)\<rparr>"

section \<open>main.py: clear\_gpt\_queue\<close>

text \<open>
  The part of \<^verbatim>\<open>clear_gpt_queue\<close> (main.py, lines 1379-1383) that touches the
  dispatcher; it runs without suspension.
\<close>

definition clear_gpt_queue :: "state \<Rightarrow> state" where
  "clear_gpt_queue s =
     (let n = int (length (queue s))
      in s\<lparr>queue := [], unfinished_tasks := max 0 (unfinished_tasks s - n)\<rparr>)"

section \<open>The transition system\<close>

datatype event =
    Add_request nat int int
  | Send_message_done nat sink_outcome int real
  | Add_edit_done nat sink_outcome
  | Worker_got
  | Limiter_sec_acquired
  | Limiter_hour_acquired
  | Semaphore_acquired
  | Notify_in_progress_done tid sink_outcome
  | Func_to_call_done tid work_outcome
  | Notify_finished_done tid sink_outcome
  | Updater_woke
  | Updater_edit_done sink_outcome
  | Clear_gpt_queue

text \<open>
  \<open>step e s\<close> is \<open>None\<close> when the event \<open>e\<close> cannot happen in \<open>s\<close>. The events are
  those of a dispatcher in operation: the cancellation of its tasks by
  \<^verbatim>\<open>shutdown_bot\<close> is not among them, and is given separately below.
\<close>

fun step :: "event \<Rightarrow> state \<Rightarrow> state option" where
  "step (Add_request cid user chat) s =
     (case adders s cid of
        None \<Rightarrow> Some (s\<lparr>adders := (adders s)(cid \<mapsto> Sending user chat)\<rparr>)
      | Some a \<Rightarrow> None)"
| "step (Send_message_done cid out message_id current_time) s =
     (case adders s cid of
        Some (Sending user chat) \<Rightarrow>
          Some (add_request_sent cid user chat out message_id current_time s)
      | _ \<Rightarrow> None)"
| "step (Add_edit_done cid out) s =
     (case adders s cid of
        Some (Adder_updating req current_time (item # rest) ntotal) \<Rightarrow>
          Some (add_request_edited cid req current_time item rest ntotal out s)
      | _ \<Rightarrow> None)"
| "step Worker_got s =
     (case worker_task s of Queue_get \<Rightarrow> worker_got s | _ \<Rightarrow> None)"
| "step Limiter_sec_acquired s =
     (case worker_task s of
        Limiter_sec req \<Rightarrow>
          Some (s\<lparr>limiter_sec_acquired := limiter_sec_acquired s + 1,
                  worker_task := Limiter_hour req\<rparr>)
      | _ \<Rightarrow> None)"
| "step Limiter_hour_acquired s =
     (case worker_task s of
        Limiter_hour req \<Rightarrow>
          Some (s\<lparr>limiter_hour_acquired := limiter_hour_acquired s + 1,
                  worker_task := Semaphore req\<rparr>)
      | _ \<Rightarrow> None)"
| "step Semaphore_acquired s =
     (case worker_task s of Semaphore req \<Rightarrow> worker_admit req s | _ \<Rightarrow> None)"
| "step (Notify_in_progress_done req out) s =
     (case processes s req of
        Some Notify_in_progress \<Rightarrow> Some (process_notified out req s)
      | _ \<Rightarrow> None)"
| "step (Func_to_call_done req w) s =
     (case processes s req of
        Some Func_to_call \<Rightarrow> Some (process_called w req s)
      | _ \<Rightarrow> None)"
| "step (Notify_finished_done req out) s =
     (case processes s req of
        Some Notify_finished \<Rightarrow> Some (process_deleted out req s)
      | _ \<Rightarrow> None)"
| "step Updater_woke s =
     (case status_updater_task s of Sleeping \<Rightarrow> Some (updater_woke s) | _ \<Rightarrow> None)"
| "step (Updater_edit_done out) s =
     (case status_updater_task s of
        Updating (item # rest) ntotal \<Rightarrow> Some (updater_edited item rest ntotal out s)
      | _ \<Rightarrow> None)"
| "step Clear_gpt_queue s = Some (clear_gpt_queue s)"

fun run :: "event list \<Rightarrow> state \<Rightarrow> state option" where
  "run [] s = Some s"
| "run (e # es) s = (case step e s of None \<Rightarrow> None | Some s' \<Rightarrow> run es s')"

text \<open>The requests whose \<^verbatim>\<open>func_to_call\<close> is being awaited, in the order of their spawning.\<close>

definition executing :: "state \<Rightarrow> tid list" where
  "executing s = filter (\<lambda>req. processes s req = Some Func_to_call) (spawned s)"

section \<open>Notions used by the properties\<close>

text \<open>
  The worker holds a request from \<^verbatim>\<open>queue.get()\<close> to the creation of its task; a
  request is running while its \<^verbatim>\<open>process_task\<close> has not left its \<^verbatim>\<open>finally\<close>
  clause; a tracked request is queued, held or running. \<open>held\<close> lists the request
  the worker holds.
\<close>

fun holds :: "worker_pc \<Rightarrow> tid \<Rightarrow> bool" where
  "holds (Limiter_sec r) t = (r = t)"
| "holds (Limiter_hour r) t = (r = t)"
| "holds (Semaphore r) t = (r = t)"
| "holds Queue_get t = False"
| "holds Worker_failed t = False"
| "holds (Worker_cancelled rs) t = (t \<in> set rs)"

fun held :: "worker_pc \<Rightarrow> tid list" where
  "held (Limiter_sec r) = [r]"
| "held (Limiter_hour r) = [r]"
| "held (Semaphore r) = [r]"
| "held Queue_get = []"
| "held Worker_failed = []"
| "held (Worker_cancelled rs) = rs"

definition running :: "state \<Rightarrow> tid \<Rightarrow> bool" where
  "running s t =
     (case processes s t of None \<Rightarrow> False | Some Finished \<Rightarrow> False | Some pc \<Rightarrow> True)"

definition tracked :: "state \<Rightarrow> tid \<Rightarrow> bool" where
  "tracked s t = (t \<in> set (queue s) \<or> holds (worker_task s) t \<or> running s t)"

definition membership_inv :: "state \<Rightarrow> bool" where
  "membership_inv s =
     (distinct (queue s) \<and>
      (\<forall>t. (t \<in> set (queue s) \<longrightarrow>
              t \<notin> active_requests s \<and> \<not> holds (worker_task s) t \<and> processes s t = None
              \<and> t < next_tid s) \<and>
           (t \<in> active_requests s \<longleftrightarrow> holds (worker_task s) t \<or> running s t) \<and>
           (holds (worker_task s) t \<longrightarrow> processes s t = None \<and> t < next_tid s) \<and>
           (processes s t \<noteq> None \<longrightarrow> t < next_tid s)))"

section \<open>main.py: shutdown\_bot\<close>

text \<open>
  \<^verbatim>\<open>shutdown_bot\<close> (main.py, lines 1506-1538) cancels the worker task and awaits
  it, then cancels every other task of the event loop and awaits them all. A cancelled
  task receives \<^verbatim>\<open>CancelledError\<close> at the \<^verbatim>\<open>await\<close> where it is suspended; this is
  not an \<^verbatim>\<open>Exception\<close>, so no \<^verbatim>\<open>except\<close> clause of the dispatcher catches it, and
  the \<^verbatim>\<open>finally\<close> clause of \<^verbatim>\<open>process_task\<close> runs. A task suspended at
  \<^verbatim>\<open>await future\<close> cancels that future when it is cancelled; a future that no task
  awaits is not touched.

  \<open>cancel_worker\<close>: the worker ends where it is suspended; a request it has dequeued
  stays in \<open>active_requests\<close>; a worker that an exception has already ended is left as
  it is. \<open>awaited s req\<close>: the call of \<^verbatim>\<open>add_request\<close>
  that created \<open>req\<close> has returned, so that \<^verbatim>\<open>ask_gpt_in_queue\<close> is at
  \<^verbatim>\<open>await future\<close>. \<open>cancel_tasks\<close>: every running \<^verbatim>\<open>process_task\<close> ends
  through its \<^verbatim>\<open>finally\<close> clause, every awaited pending future is cancelled, every
  caller and the status updater end. \<open>shutdown_bot es\<close>: the two cancellations, with
  the steps \<open>es\<close> that the other tasks take while \<^verbatim>\<open>shutdown_bot\<close> awaits the
  worker task.
\<close>

definition cancel_worker :: "state \<Rightarrow> state" where
  "cancel_worker s =
     (case worker_task s of
        Worker_failed \<Rightarrow> s
      | w \<Rightarrow> s\<lparr>worker_task := Worker_cancelled (held w)\<rparr>)"

definition awaited :: "state \<Rightarrow> tid \<Rightarrow> bool" where
  "awaited s req =
     (case submitter s req of
        None \<Rightarrow> False
      | Some cid \<Rightarrow> adders s cid = Some (Returned req))"

definition cancel_tasks :: "state \<Rightarrow> state" where
  "cancel_tasks s =
     s\<lparr>processes := (\<lambda>req. if running s req then Some Finished else processes s req),
       active_requests := {req \<in> active_requests s. \<not> running s req},
       futures := (\<lambda>req. if awaited s req \<and> futures s req = Some Pending
                          then Some Cancelled else futures s req),
       adders := (\<lambda>cid. map_option (\<lambda>pc. Call_cancelled) (adders s cid)),
       status_updater_task := Updater_cancelled\<rparr>"

definition shutdown_bot :: "event list \<Rightarrow> state \<Rightarrow> state option" where
  "shutdown_bot es s =
     (case run es (cancel_worker s) of
        None \<Rightarrow> None
      | Some s' \<Rightarrow> Some (cancel_tasks s'))"

section \<open>The rate limiters\<close>

text \<open>
  \<^verbatim>\<open>limiter_sec\<close> and \<^verbatim>\<open>limiter_hour\<close> are \<^verbatim>\<open>AsyncLimiter\<close> objects of the aiolimiter
  library, whose code is not part of the repository; section 4.2 of the specification
  describes them.
\<close>

text \<open>
  Modelled from the spec: the state of a limiter, which is missing from the source (class
  \<^verbatim>\<open>AsyncLimiter\<close>). A window has a capacity (\<open>max_rate\<close> tokens) and a period over
  which that capacity is replenished; \<open>level\<close> is the number of tokens in use and
  \<open>last_check\<close> the time at which it was last brought up to date.
\<close>

record limiter =
  max_rate :: real
  time_period :: real
  level :: real
  last_check :: real


text \<open>
  Modelled from the spec: the replenishment rate, missing from the source: the capacity
  is replenished over one period.
\<close>

definition rate :: "limiter \<Rightarrow> real" where
  "rate l = max_rate l / time_period l"

text \<open>
  Modelled from the spec: continuous replenishment (leaky bucket, no reset at a window
  edge), missing from the source: the tokens in use decrease at the rate, down to none.
\<close>

definition leak :: "real \<Rightarrow> limiter \<Rightarrow> limiter" where
  "leak now l =
     l\<lparr>level := max (level l - (now - last_check l) * rate l) 0, last_check := now\<rparr>"


text \<open>
  Modelled from the spec: taking one token, missing from the source
  (\<^verbatim>\<open>AsyncLimiter.acquire\<close> once it no longer waits).
\<close>

definition acquire :: "real \<Rightarrow> limiter \<Rightarrow> limiter" where
  "acquire now l = (leak now l)\<lparr>level := level (leak now l) + 1\<rparr>"









text \<open>
  Invariants of the reachable states.
  \<open>abandoned\<close>: a request that was created and is no longer queued, held or running.
\<close>

definition fifo_inv :: "state \<Rightarrow> bool" where
  "fifo_inv s =
     (subseq (dequeued s @ queue s) (enqueued s) \<and>
      [0..<next_tid s] = enqueued s \<and>
      spawned s @ held (worker_task s) = dequeued s)"

definition counting_inv :: "nat \<Rightarrow> state \<Rightarrow> bool" where
  "counting_inv max_tasks s =
     (unfinished_tasks s = int (length (queue s)) + int (length (held (worker_task s))) \<and>
      semaphore s = max_tasks \<and> worker_task s \<noteq> Worker_failed)"

definition futures_inv :: "state \<Rightarrow> bool" where
  "futures_inv s =
     (\<forall>t. if t < next_tid s
          then futures s t = Some Pending \<or>
               ((\<exists>v. futures s t = Some (Result v)) \<and>
                (processes s t = Some Notify_finished \<or> processes s t = Some Finished))
          else futures s t = None)"

definition abandoned :: "state \<Rightarrow> tid \<Rightarrow> bool" where
  "abandoned s t = (t < next_tid s \<and> \<not> tracked s t)"

text \<open>
  The tokens handed out by the two limiters, against the tasks created: the worker takes
  one token of each limiter, in this order, before it creates a task.
\<close>

definition tokens_inv :: "state \<Rightarrow> bool" where
  "tokens_inv s =
     (limiter_sec_acquired s =
        length (spawned s) +
        (case worker_task s of Limiter_hour r \<Rightarrow> 1 | Semaphore r \<Rightarrow> 1 | _ \<Rightarrow> 0) \<and>
      limiter_hour_acquired s =
        length (spawned s) + (case worker_task s of Semaphore r \<Rightarrow> 1 | _ \<Rightarrow> 0))"

definition spawned_inv :: "state \<Rightarrow> bool" where
  "spawned_inv s = (set (spawned s) = dom (processes s))"

definition submitter_inv :: "state \<Rightarrow> bool" where
  "submitter_inv s =
     (\<forall>req. if req < next_tid s
            then \<exists>cid. submitter s req = Some cid \<and>
                   (adders s cid = Some (Returned req) \<or>
                    (\<exists>now items n. adders s cid = Some (Adder_updating req now items n)))
            else submitter s req = None)"




definition dispatcher_inv :: "nat \<Rightarrow> state \<Rightarrow> bool" where
  "dispatcher_inv max_tasks s =
     (membership_inv s \<and> fifo_inv s \<and> counting_inv max_tasks s \<and> futures_inv s)"

text \<open>
  Runs used below. \<open>one_queued\<close>: one call of \<^verbatim>\<open>add_request\<close> to its return (the
  clock is beyond the update interval, so the call edits the position message itself).
  \<open>dropped\<close>: then \<^verbatim>\<open>clear_gpt_queue\<close>. \<open>one_request\<close>: one call, and the worker
  admits the request. \<open>almost_served\<close>: then its \<^verbatim>\<open>func_to_call\<close> returns, so that
  the deletion of the position message is awaited. \<open>sink_fails\<close>: instead, the edit of
  \<^verbatim>\<open>_notify_in_progress\<close> raises an exception that is not a \<^verbatim>\<open>TelegramAPIError\<close>.
  \<open>burst\<close>: two calls of \<^verbatim>\<open>add_request\<close>, both requests admitted and notified.
  \<open>served_and_stopped\<close>: two calls, both requests admitted; the first is served to
  its end, the second meets the failing edit of \<open>sink_fails\<close>. \<open>unreturned\<close>:
  one call whose request is admitted while the call still awaits, inside
  \<^verbatim>\<open>add_request\<close>, the edit of its position message. \<open>three_in_half\<close>: a
  timed run with three calls, whose requests are admitted at the times 0, 0 and 1/2.
\<close>

definition unreturned :: "event list" where
  "unreturned =
     [Add_request 0 7 70, Send_message_done 0 Ok 11 1000,
      Worker_got, Limiter_sec_acquired, Limiter_hour_acquired, Semaphore_acquired]"


definition one_request :: "event list" where
  "one_request =
     [Add_request 0 7 70, Send_message_done 0 Ok 11 1000, Add_edit_done 0 Ok,
      Worker_got, Limiter_sec_acquired, Limiter_hour_acquired, Semaphore_acquired]"

definition sink_fails :: "event list" where
  "sink_fails = one_request @ [Notify_in_progress_done 0 OtherError]"

definition burst :: "event list" where
  "burst =
     [Add_request 0 7 70, Send_message_done 0 Ok 11 1000, Add_edit_done 0 Ok,
      Add_request 1 8 80, Send_message_done 1 Ok 12 1001,
      Worker_got, Limiter_sec_acquired, Limiter_hour_acquired, Semaphore_acquired,
      Worker_got, Limiter_sec_acquired, Limiter_hour_acquired, Semaphore_acquired,
      Notify_in_progress_done 0 Ok, Notify_in_progress_done 1 Ok]"

definition one_queued :: "event list" where
  "one_queued = [Add_request 0 7 70, Send_message_done 0 Ok 11 1000, Add_edit_done 0 Ok]"

definition served_and_stopped :: "event list" where
  "served_and_stopped =
     [Add_request 0 7 70, Send_message_done 0 Ok 11 1000, Add_edit_done 0 Ok,
      Add_request 1 8 80, Send_message_done 1 Ok 12 1001,
      Worker_got, Limiter_sec_acquired, Limiter_hour_acquired, Semaphore_acquired,
      Worker_got, Limiter_sec_acquired, Limiter_hour_acquired, Semaphore_acquired,
      Notify_in_progress_done 0 Ok, Func_to_call_done 0 (Work_returns ''text''),
      Notify_finished_done 0 Ok, Notify_in_progress_done 1 OtherError]"

definition dropped :: "event list" where
  "dropped = one_queued @ [Clear_gpt_queue]"

definition almost_served :: "event list" where
  "almost_served =
     one_request @ [Notify_in_progress_done 0 Ok, Func_to_call_done 0 (Work_returns ''text'')]"

section \<open>The decorator: proofs\<close>

lemma wrapped_prefix:
  "(\<And>j. j < k \<Longrightarrow> (\<exists>m. func (k0 + j) = Raises (Exc m)) \<and> \<not> cancelled (k0 + j)) \<Longrightarrow>
   k \<le> n \<Longrightarrow>
   wrapped func cancelled k0 n = wrapped func cancelled (k0 + k) (n - k)"
proof (induction k arbitrary: k0 n)
  case 0
  then show ?case by simp
next
  case (Suc k)
  from Suc.prems(2) obtain n' where n: "n = Suc n'" and le: "k \<le> n'"
    by (cases n) auto
  from Suc.prems(1) [of 0] obtain m where
    first: "func k0 = Raises (Exc m)" and quiet: "\<not> cancelled k0"
    by auto
  have "wrapped func cancelled (Suc k0) n' = wrapped func cancelled (Suc k0 + k) (n' - k)"
  proof (rule Suc.IH)
    show "k \<le> n'" by (rule le)
    fix j assume "j < k"
    then have "Suc j < Suc k" by simp
    from Suc.prems(1) [OF this]
    show "(\<exists>m. func (Suc k0 + j) = Raises (Exc m)) \<and> \<not> cancelled (Suc k0 + j)"
      by simp
  qed
  with first quiet n show ?case by simp
qed

lemma try_body_attempts:
  "try_body a func cancelled = wrapped func cancelled 0 (attempts a - 1)"
  by (simp add: try_body_def attempts_def)

lemma try_body_at:
  assumes "\<forall>j<k. (\<exists>m. func j = Raises (Exc m)) \<and> \<not> cancelled j" and "k < attempts a"
  shows "try_body a func cancelled = wrapped func cancelled k (attempts a - 1 - k)"
  using wrapped_prefix [of k func 0 cancelled "attempts a - 1"] assms
  by (simp add: try_body_attempts)

text \<open>
  Claim C10 (amended). Let the decorated coroutine be called for the \<open>k\<close>-th time
  (from 0), all earlier calls having raised an \<^verbatim>\<open>Exception\<close> and been retried without
  a cancellation during the pauses. If this call raises \<^verbatim>\<open>asyncio.CancelledError\<close>, or
  the task is cancelled in the pause after it, the wrapper raises \<open>CancelledError\<close>
  and logs nothing: it never returns the default value for it. If the call raises an
  exception outside \<^verbatim>\<open>Exception\<close> (\<^verbatim>\<open>KeyboardInterrupt\<close>, \<^verbatim>\<open>SystemExit\<close>), the
  wrapper raises it again, neither logged nor replaced. If it returns, the wrapper
  returns the same value. If it raises an \<^verbatim>\<open>Exception\<close> and was the last attempt
  allowed, the exception is logged and then replaced by \<open>default_return\<close>, or raised
  again when \<open>re_raise\<close> is set.
\<close>

theorem error_handler_outcomes:
  assumes "\<forall>j<k. (\<exists>m. func j = Raises (Exc m)) \<and> \<not> cancelled j" and "k < attempts a"
  shows "(func k = Raises CancelledError \<longrightarrow>
            wrapper a func cancelled = (Raises CancelledError, []))
    \<and> (func k = Raises (Exc m) \<and> cancelled k \<and> Suc k < attempts a \<longrightarrow>
            wrapper a func cancelled = (Raises CancelledError, []))
    \<and> (func k = Raises (BaseExc b) \<longrightarrow>
            wrapper a func cancelled = (Raises (BaseExc b), []))
    \<and> (func k = Returns v \<longrightarrow> wrapper a func cancelled = (Returns v, []))
    \<and> (func k = Raises (Exc m) \<and> Suc k = attempts a \<longrightarrow>
            wrapper a func cancelled =
              (if re_raise a then Raises (Exc m) else Returns (default_return a), [Exc m]))"
proof -
  note at = try_body_at [OF assms]
  show ?thesis
  proof (cases "attempts a - 1 - k")
    case 0
    with assms(2) have "Suc k = attempts a" by simp
    with at 0 show ?thesis by (auto simp: wrapper_def)
  next
    case (Suc n)
    then have "Suc k < attempts a" by simp
    with at Suc show ?thesis by (auto simp: wrapper_def)
  qed
qed

theorem error_handler_outcomes_witness:
  "wrapper \<lparr>default_return = ''fallback'', re_raise = False, retries = 3\<rparr> fails_thrice never
     = (Returns ''fallback'', [Exc ''boom''])
   \<and> wrapper \<lparr>default_return = ''fallback'', re_raise = True, retries = 3\<rparr> fails_thrice never
     = (Raises (Exc ''boom''), [Exc ''boom''])
   \<and> wrapper \<lparr>default_return = ''fallback'', re_raise = False, retries = 3\<rparr>
       fails_then_cancelled never
     = (Raises CancelledError, [])
   \<and> wrapper \<lparr>default_return = ''fallback'', re_raise = False, retries = 3\<rparr>
       fails_then_returns never
     = (Returns ''text'', [])"
proof -
  let ?a = "\<lparr>default_return = ''fallback'', re_raise = False, retries = 3\<rparr>"
  let ?b = "\<lparr>default_return = ''fallback'', re_raise = True, retries = 3\<rparr>"
  have pre2: "\<forall>j<2. (\<exists>m. fails_thrice j = Raises (Exc m)) \<and> \<not> never j"
    by (simp add: fails_thrice_def never_def)
  have pre1c: "\<forall>j<1. (\<exists>m. fails_then_cancelled j = Raises (Exc m)) \<and> \<not> never j"
    by (simp add: fails_then_cancelled_def never_def)
  have pre1r: "\<forall>j<1. (\<exists>m. fails_then_returns j = Raises (Exc m)) \<and> \<not> never j"
    by (simp add: fails_then_returns_def never_def)
  have v2: "fails_thrice 2 = Raises (Exc ''boom'')" by (simp add: fails_thrice_def)
  have c1: "fails_then_cancelled 1 = Raises CancelledError"
    by (simp add: fails_then_cancelled_def)
  have r1: "fails_then_returns 1 = Returns ''text''" by (simp add: fails_then_returns_def)
  have one: "wrapper ?a fails_thrice never = (Returns ''fallback'', [Exc ''boom''])"
    using error_handler_outcomes [OF pre2, of ?a "''boom''"] v2
    by (simp add: attempts_def)
  have two: "wrapper ?b fails_thrice never = (Raises (Exc ''boom''), [Exc ''boom''])"
    using error_handler_outcomes [OF pre2, of ?b "''boom''"] v2
    by (simp add: attempts_def)
  have three: "wrapper ?a fails_then_cancelled never = (Raises CancelledError, [])"
    using error_handler_outcomes [OF pre1c, of ?a] c1
    by (simp add: attempts_def)
  have four: "wrapper ?a fails_then_returns never = (Returns ''text'', [])"
    using error_handler_outcomes [OF pre1r, of ?a _ _ "''text''"] r1
    by (simp add: attempts_def)
  from one two three four show ?thesis by simp
qed

text \<open>
  Claim C10 as stated fails for an exception that is neither \<^verbatim>\<open>CancelledError\<close> nor an
  \<^verbatim>\<open>Exception\<close>: with \<open>re_raise\<close> unset, a \<^verbatim>\<open>KeyboardInterrupt\<close> out of the
  decorated coroutine is not logged and not replaced by the default value.
\<close>

theorem error_handler_base_exception_counterexample:
  "wrapper \<lparr>default_return = ''fallback'', re_raise = False, retries = 0\<rparr> interrupted never
     = (Raises (BaseExc ''KeyboardInterrupt''), [])"
  by (simp add: wrapper_def try_body_def interrupted_def)

section \<open>The dispatcher: what each segment changes\<close>

lemma edit_position_message_eq:
  "edit_position_message out req pos n s =
     (out = OtherError,
      (if out = TelegramAPIError then log_entry Warn_position_edit else id)
        (bot_called (Edit_message_text (chat_id (requests s req))
           (position_msg_id (requests s req)) (Position_text pos n)) out s))"
  by (cases out) (simp_all add: edit_position_message_def Let_def)

lemma notify_in_progress_eq:
  "notify_in_progress out req s =
     (out = OtherError,
      (if out = TelegramAPIError then log_entry Warn_in_progress else id)
        (bot_called (Edit_message_text (chat_id (requests s req))
           (position_msg_id (requests s req)) In_progress_text) out s))"
  by (cases out) (simp_all add: notify_in_progress_def Let_def)

lemma notify_finished_eq:
  "notify_finished out req s =
     (out = OtherError,
      (if out = TelegramAPIError then log_entry Warn_finished else id)
        (bot_called (Delete_message (chat_id (requests s req))
           (position_msg_id (requests s req))) out s))"
  by (cases out) (simp_all add: notify_finished_def Let_def)

lemma bot_called_frame [simp]:
  "queue (bot_called c out s) = queue s"
  "unfinished_tasks (bot_called c out s) = unfinished_tasks s"
  "semaphore (bot_called c out s) = semaphore s"
  "limiter_sec_acquired (bot_called c out s) = limiter_sec_acquired s"
  "limiter_hour_acquired (bot_called c out s) = limiter_hour_acquired s"
  "last_position_update (bot_called c out s) = last_position_update s"
  "active_requests (bot_called c out s) = active_requests s"
  "next_tid (bot_called c out s) = next_tid s"
  "requests (bot_called c out s) = requests s"
  "futures (bot_called c out s) = futures s"
  "worker_task (bot_called c out s) = worker_task s"
  "processes (bot_called c out s) = processes s"
  "status_updater_task (bot_called c out s) = status_updater_task s"
  "adders (bot_called c out s) = adders s"
  "submitter (bot_called c out s) = submitter s"
  "logged (bot_called c out s) = logged s"
  "enqueued (bot_called c out s) = enqueued s"
  "dequeued (bot_called c out s) = dequeued s"
  "spawned (bot_called c out s) = spawned s"
  by (simp_all add: bot_called_def)

lemma log_entry_frame [simp]:
  "queue (log_entry e s) = queue s"
  "unfinished_tasks (log_entry e s) = unfinished_tasks s"
  "semaphore (log_entry e s) = semaphore s"
  "limiter_sec_acquired (log_entry e s) = limiter_sec_acquired s"
  "limiter_hour_acquired (log_entry e s) = limiter_hour_acquired s"
  "last_position_update (log_entry e s) = last_position_update s"
  "active_requests (log_entry e s) = active_requests s"
  "next_tid (log_entry e s) = next_tid s"
  "requests (log_entry e s) = requests s"
  "futures (log_entry e s) = futures s"
  "worker_task (log_entry e s) = worker_task s"
  "processes (log_entry e s) = processes s"
  "status_updater_task (log_entry e s) = status_updater_task s"
  "adders (log_entry e s) = adders s"
  "submitter (log_entry e s) = submitter s"
  "bot_calls (log_entry e s) = bot_calls s"
  "enqueued (log_entry e s) = enqueued s"
  "dequeued (log_entry e s) = dequeued s"
  "spawned (log_entry e s) = spawned s"
  by (simp_all add: log_entry_def)

lemma update_positions_item_frame [simp]:
  "queue (update_positions_item out item n s) = queue s"
  "unfinished_tasks (update_positions_item out item n s) = unfinished_tasks s"
  "semaphore (update_positions_item out item n s) = semaphore s"
  "limiter_sec_acquired (update_positions_item out item n s) = limiter_sec_acquired s"
  "limiter_hour_acquired (update_positions_item out item n s) = limiter_hour_acquired s"
  "last_position_update (update_positions_item out item n s) = last_position_update s"
  "active_requests (update_positions_item out item n s) = active_requests s"
  "next_tid (update_positions_item out item n s) = next_tid s"
  "requests (update_positions_item out item n s) = requests s"
  "futures (update_positions_item out item n s) = futures s"
  "worker_task (update_positions_item out item n s) = worker_task s"
  "processes (update_positions_item out item n s) = processes s"
  "status_updater_task (update_positions_item out item n s) = status_updater_task s"
  "adders (update_positions_item out item n s) = adders s"
  "submitter (update_positions_item out item n s) = submitter s"
  "enqueued (update_positions_item out item n s) = enqueued s"
  "dequeued (update_positions_item out item n s) = dequeued s"
  "spawned (update_positions_item out item n s) = spawned s"
  by (simp_all add: update_positions_item_def edit_position_message_eq split: bool.split)

lemma add_request_edited_frame [simp]:
  "queue (add_request_edited cid req now item rest n out s) = queue s"
  "unfinished_tasks (add_request_edited cid req now item rest n out s) = unfinished_tasks s"
  "semaphore (add_request_edited cid req now item rest n out s) = semaphore s"
  "limiter_sec_acquired (add_request_edited cid req now item rest n out s) = limiter_sec_acquired s"
  "limiter_hour_acquired (add_request_edited cid req now item rest n out s) = limiter_hour_acquired s"
  "active_requests (add_request_edited cid req now item rest n out s) = active_requests s"
  "next_tid (add_request_edited cid req now item rest n out s) = next_tid s"
  "requests (add_request_edited cid req now item rest n out s) = requests s"
  "futures (add_request_edited cid req now item rest n out s) = futures s"
  "worker_task (add_request_edited cid req now item rest n out s) = worker_task s"
  "processes (add_request_edited cid req now item rest n out s) = processes s"
  "status_updater_task (add_request_edited cid req now item rest n out s) = status_updater_task s"
  "submitter (add_request_edited cid req now item rest n out s) = submitter s"
  "enqueued (add_request_edited cid req now item rest n out s) = enqueued s"
  "dequeued (add_request_edited cid req now item rest n out s) = dequeued s"
  "spawned (add_request_edited cid req now item rest n out s) = spawned s"
  by (simp_all add: add_request_edited_def Let_def)

lemma add_request_sent_frame [simp]:
  "semaphore (add_request_sent cid user chat out mid now s) = semaphore s"
  "limiter_sec_acquired (add_request_sent cid user chat out mid now s) = limiter_sec_acquired s"
  "limiter_hour_acquired (add_request_sent cid user chat out mid now s) = limiter_hour_acquired s"
  "active_requests (add_request_sent cid user chat out mid now s) = active_requests s"
  "worker_task (add_request_sent cid user chat out mid now s) = worker_task s"
  "processes (add_request_sent cid user chat out mid now s) = processes s"
  "status_updater_task (add_request_sent cid user chat out mid now s) = status_updater_task s"
  "dequeued (add_request_sent cid user chat out mid now s) = dequeued s"
  "spawned (add_request_sent cid user chat out mid now s) = spawned s"
  by (simp_all add: add_request_sent_def queue_put_def Let_def split: list.split)

lemma process_notified_frame [simp]:
  "queue (process_notified out req s) = queue s"
  "unfinished_tasks (process_notified out req s) = unfinished_tasks s"
  "semaphore (process_notified out req s) = semaphore s"
  "limiter_sec_acquired (process_notified out req s) = limiter_sec_acquired s"
  "limiter_hour_acquired (process_notified out req s) = limiter_hour_acquired s"
  "last_position_update (process_notified out req s) = last_position_update s"
  "next_tid (process_notified out req s) = next_tid s"
  "requests (process_notified out req s) = requests s"
  "futures (process_notified out req s) = futures s"
  "worker_task (process_notified out req s) = worker_task s"
  "status_updater_task (process_notified out req s) = status_updater_task s"
  "adders (process_notified out req s) = adders s"
  "submitter (process_notified out req s) = submitter s"
  "enqueued (process_notified out req s) = enqueued s"
  "dequeued (process_notified out req s) = dequeued s"
  "spawned (process_notified out req s) = spawned s"
  by (simp_all add: process_notified_def notify_in_progress_eq process_except_def process_finally_def process_return_def
      split: bool.split)

lemma process_called_frame [simp]:
  "queue (process_called w req s) = queue s"
  "unfinished_tasks (process_called w req s) = unfinished_tasks s"
  "semaphore (process_called w req s) = semaphore s"
  "limiter_sec_acquired (process_called w req s) = limiter_sec_acquired s"
  "limiter_hour_acquired (process_called w req s) = limiter_hour_acquired s"
  "last_position_update (process_called w req s) = last_position_update s"
  "next_tid (process_called w req s) = next_tid s"
  "requests (process_called w req s) = requests s"
  "worker_task (process_called w req s) = worker_task s"
  "status_updater_task (process_called w req s) = status_updater_task s"
  "adders (process_called w req s) = adders s"
  "submitter (process_called w req s) = submitter s"
  "bot_calls (process_called w req s) = bot_calls s"
  "enqueued (process_called w req s) = enqueued s"
  "dequeued (process_called w req s) = dequeued s"
  "spawned (process_called w req s) = spawned s"
  by (simp_all add: process_called_def process_except_def process_finally_def process_return_def split: work_outcome.split option.split)

lemma process_deleted_frame [simp]:
  "queue (process_deleted out req s) = queue s"
  "unfinished_tasks (process_deleted out req s) = unfinished_tasks s"
  "semaphore (process_deleted out req s) = semaphore s"
  "limiter_sec_acquired (process_deleted out req s) = limiter_sec_acquired s"
  "limiter_hour_acquired (process_deleted out req s) = limiter_hour_acquired s"
  "last_position_update (process_deleted out req s) = last_position_update s"
  "next_tid (process_deleted out req s) = next_tid s"
  "requests (process_deleted out req s) = requests s"
  "futures (process_deleted out req s) = futures s"
  "worker_task (process_deleted out req s) = worker_task s"
  "status_updater_task (process_deleted out req s) = status_updater_task s"
  "adders (process_deleted out req s) = adders s"
  "submitter (process_deleted out req s) = submitter s"
  "enqueued (process_deleted out req s) = enqueued s"
  "dequeued (process_deleted out req s) = dequeued s"
  "spawned (process_deleted out req s) = spawned s"
  by (simp_all add: process_deleted_def notify_finished_eq process_except_def process_finally_def process_return_def
      split: bool.split)

lemma updater_woke_frame [simp]:
  "queue (updater_woke s) = queue s"
  "unfinished_tasks (updater_woke s) = unfinished_tasks s"
  "semaphore (updater_woke s) = semaphore s"
  "limiter_sec_acquired (updater_woke s) = limiter_sec_acquired s"
  "limiter_hour_acquired (updater_woke s) = limiter_hour_acquired s"
  "last_position_update (updater_woke s) = last_position_update s"
  "active_requests (updater_woke s) = active_requests s"
  "next_tid (updater_woke s) = next_tid s"
  "requests (updater_woke s) = requests s"
  "futures (updater_woke s) = futures s"
  "worker_task (updater_woke s) = worker_task s"
  "processes (updater_woke s) = processes s"
  "adders (updater_woke s) = adders s"
  "submitter (updater_woke s) = submitter s"
  "bot_calls (updater_woke s) = bot_calls s"
  "logged (updater_woke s) = logged s"
  "enqueued (updater_woke s) = enqueued s"
  "dequeued (updater_woke s) = dequeued s"
  "spawned (updater_woke s) = spawned s"
  by (simp_all add: updater_woke_def split: list.split)

lemma updater_edited_frame [simp]:
  "queue (updater_edited item rest n out s) = queue s"
  "unfinished_tasks (updater_edited item rest n out s) = unfinished_tasks s"
  "semaphore (updater_edited item rest n out s) = semaphore s"
  "limiter_sec_acquired (updater_edited item rest n out s) = limiter_sec_acquired s"
  "limiter_hour_acquired (updater_edited item rest n out s) = limiter_hour_acquired s"
  "last_position_update (updater_edited item rest n out s) = last_position_update s"
  "active_requests (updater_edited item rest n out s) = active_requests s"
  "next_tid (updater_edited item rest n out s) = next_tid s"
  "requests (updater_edited item rest n out s) = requests s"
  "futures (updater_edited item rest n out s) = futures s"
  "worker_task (updater_edited item rest n out s) = worker_task s"
  "processes (updater_edited item rest n out s) = processes s"
  "adders (updater_edited item rest n out s) = adders s"
  "submitter (updater_edited item rest n out s) = submitter s"
  "enqueued (updater_edited item rest n out s) = enqueued s"
  "dequeued (updater_edited item rest n out s) = dequeued s"
  "spawned (updater_edited item rest n out s) = spawned s"
  by (simp_all add: updater_edited_def)

lemma clear_gpt_queue_frame [simp]:
  "semaphore (clear_gpt_queue s) = semaphore s"
  "limiter_sec_acquired (clear_gpt_queue s) = limiter_sec_acquired s"
  "limiter_hour_acquired (clear_gpt_queue s) = limiter_hour_acquired s"
  "last_position_update (clear_gpt_queue s) = last_position_update s"
  "active_requests (clear_gpt_queue s) = active_requests s"
  "next_tid (clear_gpt_queue s) = next_tid s"
  "requests (clear_gpt_queue s) = requests s"
  "futures (clear_gpt_queue s) = futures s"
  "worker_task (clear_gpt_queue s) = worker_task s"
  "processes (clear_gpt_queue s) = processes s"
  "status_updater_task (clear_gpt_queue s) = status_updater_task s"
  "adders (clear_gpt_queue s) = adders s"
  "submitter (clear_gpt_queue s) = submitter s"
  "bot_calls (clear_gpt_queue s) = bot_calls s"
  "logged (clear_gpt_queue s) = logged s"
  "enqueued (clear_gpt_queue s) = enqueued s"
  "dequeued (clear_gpt_queue s) = dequeued s"
  "spawned (clear_gpt_queue s) = spawned s"
  by (simp_all add: clear_gpt_queue_def Let_def)

lemma worker_got_frame:
  "worker_got s = Some s' \<Longrightarrow>
     unfinished_tasks s' = unfinished_tasks s \<and>
     semaphore s' = semaphore s \<and>
     limiter_sec_acquired s' = limiter_sec_acquired s \<and>
     limiter_hour_acquired s' = limiter_hour_acquired s \<and>
     last_position_update s' = last_position_update s \<and>
     next_tid s' = next_tid s \<and>
     requests s' = requests s \<and>
     futures s' = futures s \<and>
     processes s' = processes s \<and>
     status_updater_task s' = status_updater_task s \<and>
     adders s' = adders s \<and>
     submitter s' = submitter s \<and>
     bot_calls s' = bot_calls s \<and>
     logged s' = logged s \<and>
     enqueued s' = enqueued s \<and>
     spawned s' = spawned s"
  by (auto simp: worker_got_def split: list.splits)

lemma worker_admit_frame:
  "worker_admit req s = Some s' \<Longrightarrow>
     queue s' = queue s \<and>
     semaphore s' = semaphore s \<and>
     limiter_sec_acquired s' = limiter_sec_acquired s \<and>
     limiter_hour_acquired s' = limiter_hour_acquired s \<and>
     last_position_update s' = last_position_update s \<and>
     active_requests s' = active_requests s \<and>
     next_tid s' = next_tid s \<and>
     requests s' = requests s \<and>
     futures s' = futures s \<and>
     status_updater_task s' = status_updater_task s \<and>
     adders s' = adders s \<and>
     submitter s' = submitter s \<and>
     bot_calls s' = bot_calls s \<and>
     logged s' = logged s \<and>
     enqueued s' = enqueued s \<and>
     dequeued s' = dequeued s"
  by (auto simp: worker_admit_def task_done_def semaphore_release_def create_process_task_def
      semaphore_acquire_def split: if_splits)

lemma set_result_eq: "set_result v f = (if f = Pending then Some (Result v) else None)"
  by (cases f) simp_all

lemma add_request_sent_effect [simp]:
  "queue (add_request_sent cid user chat out mid now s) = queue s @ [next_tid s]"
  "unfinished_tasks (add_request_sent cid user chat out mid now s) = unfinished_tasks s + 1"
  "next_tid (add_request_sent cid user chat out mid now s) = Suc (next_tid s)"
  "futures (add_request_sent cid user chat out mid now s) = (futures s)(next_tid s \<mapsto> Pending)"
  "enqueued (add_request_sent cid user chat out mid now s) = enqueued s @ [next_tid s]"
  by (simp_all add: add_request_sent_def queue_put_def Let_def split: list.split)

lemma process_notified_effect [simp]:
  "active_requests (process_notified out req s) =
     (if out = OtherError then active_requests s - {req} else active_requests s)"
  "processes (process_notified out req s) =
     (processes s)(req \<mapsto> (if out = OtherError then Finished else Func_to_call))"
  by (simp_all add: process_notified_def notify_in_progress_eq process_except_def
      process_finally_def process_return_def split: bool.split)

lemma process_called_effect [simp]:
  "active_requests (process_called w req s) =
     (case w of
        Work_raises \<Rightarrow> active_requests s - {req}
      | Work_returns v \<Rightarrow>
          if futures s req = Some Pending then active_requests s
          else active_requests s - {req})"
  "processes (process_called w req s) =
     (processes s)(req \<mapsto>
       (case w of
          Work_raises \<Rightarrow> Finished
        | Work_returns v \<Rightarrow>
            if futures s req = Some Pending then Notify_finished else Finished))"
  "futures (process_called w req s) =
     (case w of
        Work_raises \<Rightarrow> futures s
      | Work_returns v \<Rightarrow>
          if futures s req = Some Pending then (futures s)(req \<mapsto> Result v)
          else futures s)"
  by (auto simp: process_called_def process_except_def process_finally_def process_return_def set_result_eq
      split: work_outcome.split option.split)

lemma process_deleted_effect [simp]:
  "active_requests (process_deleted out req s) = active_requests s - {req}"
  "processes (process_deleted out req s) = (processes s)(req \<mapsto> Finished)"
  by (simp_all add: process_deleted_def notify_finished_eq process_except_def
      process_finally_def process_return_def split: bool.split)

lemma clear_gpt_queue_effect [simp]:
  "queue (clear_gpt_queue s) = []"
  "unfinished_tasks (clear_gpt_queue s) =
     max 0 (unfinished_tasks s - int (length (queue s)))"
  by (simp_all add: clear_gpt_queue_def Let_def)

lemma worker_got_effect:
  "worker_got s = Some s' \<Longrightarrow>
     \<exists>req rest. queue s = req # rest \<and> queue s' = rest \<and>
       dequeued s' = dequeued s @ [req] \<and>
       active_requests s' = insert req (active_requests s) \<and>
       worker_task s' = Limiter_sec req"
  by (auto simp: worker_got_def split: list.splits)

lemma worker_admit_effect:
  "worker_admit req s = Some s' \<Longrightarrow>
     semaphore s \<noteq> 0 \<and>
     processes s' = (processes s)(req \<mapsto> Notify_in_progress) \<and>
     spawned s' = spawned s @ [req] \<and>
     worker_task s' = (if unfinished_tasks s \<le> 0 then Worker_failed else Queue_get) \<and>
     unfinished_tasks s' =
       (if unfinished_tasks s \<le> 0 then unfinished_tasks s else unfinished_tasks s - 1)"
  by (auto simp: worker_admit_def task_done_def semaphore_release_def
      create_process_task_def semaphore_acquire_def split: if_splits)

lemma step_elim [consumes 1, case_names Add_request Send_message_done Add_edit_done
    Worker_got Limiter_sec_acquired Limiter_hour_acquired Semaphore_acquired
    Notify_in_progress_done Func_to_call_done Notify_finished_done Updater_woke
    Updater_edit_done Clear_gpt_queue]:
  assumes "step e s = Some s'"
  obtains
    (Add_request) cid user chat where
      "e = Add_request cid user chat" "adders s cid = None"
      "s' = s\<lparr>adders := (adders s)(cid \<mapsto> Sending user chat)\<rparr>"
  | (Send_message_done) cid out mid now user chat where
      "e = Send_message_done cid out mid now" "adders s cid = Some (Sending user chat)"
      "s' = add_request_sent cid user chat out mid now s"
  | (Add_edit_done) cid out req now item rest n where
      "e = Add_edit_done cid out"
      "adders s cid = Some (Adder_updating req now (item # rest) n)"
      "s' = add_request_edited cid req now item rest n out s"
  | (Worker_got) "e = Worker_got" "worker_task s = Queue_get" "worker_got s = Some s'"
  | (Limiter_sec_acquired) req where
      "e = Limiter_sec_acquired" "worker_task s = Limiter_sec req"
      "s' = s\<lparr>limiter_sec_acquired := limiter_sec_acquired s + 1,
               worker_task := Limiter_hour req\<rparr>"
  | (Limiter_hour_acquired) req where
      "e = Limiter_hour_acquired" "worker_task s = Limiter_hour req"
      "s' = s\<lparr>limiter_hour_acquired := limiter_hour_acquired s + 1,
               worker_task := Semaphore req\<rparr>"
  | (Semaphore_acquired) req where
      "e = Semaphore_acquired" "worker_task s = Semaphore req"
      "worker_admit req s = Some s'"
  | (Notify_in_progress_done) req out where
      "e = Notify_in_progress_done req out" "processes s req = Some Notify_in_progress"
      "s' = process_notified out req s"
  | (Func_to_call_done) req w where
      "e = Func_to_call_done req w" "processes s req = Some Func_to_call"
      "s' = process_called w req s"
  | (Notify_finished_done) req out where
      "e = Notify_finished_done req out" "processes s req = Some Notify_finished"
      "s' = process_deleted out req s"
  | (Updater_woke) "e = Updater_woke" "status_updater_task s = Sleeping"
      "s' = updater_woke s"
  | (Updater_edit_done) out item rest n where
      "e = Updater_edit_done out" "status_updater_task s = Updating (item # rest) n"
      "s' = updater_edited item rest n out s"
  | (Clear_gpt_queue) "e = Clear_gpt_queue" "s' = clear_gpt_queue s"
proof (cases e)
  case (Add_request cid user chat)
  with assms that(1) show ?thesis by (auto split: option.splits)
next
  case (Send_message_done cid out mid now)
  with assms that(2) show ?thesis by (auto split: option.splits adder_pc.splits)
next
  case (Add_edit_done cid out)
  with assms that(3) show ?thesis
    by (auto split: option.splits adder_pc.splits list.splits)
next
  case Worker_got
  with assms that(4) show ?thesis by (auto split: worker_pc.splits)
next
  case Limiter_sec_acquired
  with assms that(5) show ?thesis by (auto split: worker_pc.splits)
next
  case Limiter_hour_acquired
  with assms that(6) show ?thesis by (auto split: worker_pc.splits)
next
  case Semaphore_acquired
  with assms that(7) show ?thesis by (auto split: worker_pc.splits)
next
  case (Notify_in_progress_done req out)
  with assms that(8) show ?thesis by (auto split: option.splits process_pc.splits)
next
  case (Func_to_call_done req w)
  with assms that(9) show ?thesis by (auto split: option.splits process_pc.splits)
next
  case (Notify_finished_done req out)
  with assms that(10) show ?thesis by (auto split: option.splits process_pc.splits)
next
  case Updater_woke
  with assms that(11) show ?thesis by (auto split: updater_pc.splits)
next
  case (Updater_edit_done out)
  with assms that(12) show ?thesis by (auto split: updater_pc.splits list.splits)
next
  case Clear_gpt_queue
  with assms that(13) show ?thesis by auto
qed

lemma running_upd [simp]:
  "running (s\<lparr>processes := p\<rparr>) t =
     (case p t of None \<Rightarrow> False | Some Finished \<Rightarrow> False | Some pc \<Rightarrow> True)"
  by (simp add: running_def)

lemma membership_inv_step:
  assumes inv: "membership_inv s" and st: "step e s = Some s'"
  shows "membership_inv s'"
  using st
proof (cases rule: step_elim)
  case (Add_request cid user chat)
  with inv show ?thesis by (simp add: membership_inv_def running_def)
next
  case (Send_message_done cid out mid now user chat)
  from inv have fresh: "next_tid s \<notin> set (queue s)" "next_tid s \<notin> active_requests s"
    "\<not> holds (worker_task s) (next_tid s)" "processes s (next_tid s) = None"
    by (auto simp: membership_inv_def running_def split: option.splits)
  with inv Send_message_done show ?thesis
    by (auto simp: membership_inv_def running_def less_Suc_eq)
next
  case (Add_edit_done cid out req now item rest n)
  with inv show ?thesis by (simp add: membership_inv_def running_def)
next
  case Worker_got
  from worker_got_effect [OF Worker_got(3)] worker_got_frame [OF Worker_got(3)] inv Worker_got(2)
  show ?thesis by (auto simp: membership_inv_def running_def)
next
  case (Limiter_sec_acquired req)
  with inv show ?thesis by (auto simp: membership_inv_def running_def)
next
  case (Limiter_hour_acquired req)
  with inv show ?thesis by (auto simp: membership_inv_def running_def)
next
  case (Semaphore_acquired req)
  from worker_admit_effect [OF Semaphore_acquired(3)] worker_admit_frame [OF Semaphore_acquired(3)]
    inv Semaphore_acquired(2)
  show ?thesis by (auto simp: membership_inv_def running_def)
next
  case (Notify_in_progress_done req out)
  with inv show ?thesis by (auto simp: membership_inv_def running_def)
next
  case (Func_to_call_done req w)
  with inv show ?thesis
    by (auto simp: membership_inv_def running_def split: work_outcome.splits)
next
  case (Notify_finished_done req out)
  with inv show ?thesis by (auto simp: membership_inv_def running_def)
next
  case Updater_woke
  with inv show ?thesis by (simp add: membership_inv_def running_def)
next
  case (Updater_edit_done out item rest n)
  with inv show ?thesis by (simp add: membership_inv_def running_def)
next
  case Clear_gpt_queue
  with inv show ?thesis by (auto simp: membership_inv_def running_def)
qed

section \<open>Invariants of the dispatcher\<close>

lemma fifo_inv_step:
  assumes inv: "fifo_inv s" and st: "step e s = Some s'"
  shows "fifo_inv s'"
  using st
proof (cases rule: step_elim)
  case Worker_got
  from worker_got_effect [OF Worker_got(3)] worker_got_frame [OF Worker_got(3)] inv Worker_got(2)
  show ?thesis by (auto simp: fifo_inv_def)
next
  case (Semaphore_acquired req)
  from worker_admit_effect [OF Semaphore_acquired(3)] worker_admit_frame [OF Semaphore_acquired(3)]
    inv Semaphore_acquired(2)
  show ?thesis by (auto simp: fifo_inv_def)
next
  case Clear_gpt_queue
  from inv have "subseq (dequeued s @ queue s) (enqueued s)" by (simp add: fifo_inv_def)
  moreover have "subseq (dequeued s) (dequeued s @ queue s)" by (simp add: prefix_imp_subseq)
  ultimately have "subseq (dequeued s) (enqueued s)" by (rule subseq_order.order_trans [rotated])
  with inv Clear_gpt_queue show ?thesis by (simp add: fifo_inv_def)
next
  case (Send_message_done cid out mid now user chat)
  from inv have "subseq ((dequeued s @ queue s) @ [next_tid s]) (enqueued s @ [next_tid s])"
    unfolding fifo_inv_def subseq_append by simp
  with inv Send_message_done show ?thesis by (simp add: fifo_inv_def)
qed (use inv in \<open>auto simp: fifo_inv_def\<close>)

lemma counting_inv_step:
  assumes inv: "counting_inv C s" and st: "step e s = Some s'"
  shows "counting_inv C s'"
  using st
proof (cases rule: step_elim)
  case Worker_got
  from worker_got_effect [OF Worker_got(3)] worker_got_frame [OF Worker_got(3)] inv Worker_got(2)
  show ?thesis by (auto simp: counting_inv_def)
next
  case (Semaphore_acquired req)
  from worker_admit_effect [OF Semaphore_acquired(3)] worker_admit_frame [OF Semaphore_acquired(3)]
    inv Semaphore_acquired(2)
  show ?thesis by (auto simp: counting_inv_def)
qed (use inv in \<open>auto simp: counting_inv_def\<close>)

lemma futures_inv_step:
  assumes inv: "futures_inv s" and mem: "membership_inv s" and st: "step e s = Some s'"
  shows "futures_inv s'"
  using st
proof (cases rule: step_elim)
  case Worker_got
  from worker_got_effect [OF Worker_got(3)] worker_got_frame [OF Worker_got(3)] inv Worker_got(2)
  show ?thesis by (auto simp: futures_inv_def)
next
  case (Semaphore_acquired req)
  from worker_admit_effect [OF Semaphore_acquired(3)] worker_admit_frame [OF Semaphore_acquired(3)]
    inv Semaphore_acquired(2) mem
  show ?thesis by (auto simp: futures_inv_def membership_inv_def split: work_outcome.splits if_splits)
next
  case (Send_message_done cid out mid now user chat)
  with inv show ?thesis by (auto simp: futures_inv_def split: work_outcome.splits if_splits)
next
  case (Notify_in_progress_done req out)
  with inv show ?thesis by (auto simp: futures_inv_def split: work_outcome.splits if_splits)
next
  case (Func_to_call_done req w)
  with inv show ?thesis by (auto simp: futures_inv_def split: work_outcome.splits if_splits)
next
  case (Notify_finished_done req out)
  with inv show ?thesis by (auto simp: futures_inv_def split: work_outcome.splits if_splits)
qed (use inv in \<open>auto simp: futures_inv_def\<close>)


lemma run_invariant:
  assumes step: "\<And>s e s'. P s \<Longrightarrow> step e s = Some s' \<Longrightarrow> P s'"
  shows "P s \<Longrightarrow> run es s = Some s' \<Longrightarrow> P s'"
proof (induction es arbitrary: s)
  case Nil
  then show ?case by simp
next
  case (Cons e es)
  from Cons.prems(2) obtain s1 where s1: "step e s = Some s1" and rest: "run es s1 = Some s'"
    by (auto split: option.splits)
  from step [OF Cons.prems(1) s1] rest show ?case by (rule Cons.IH)
qed

lemma dispatcher_inv_init: "dispatcher_inv max_tasks (init max_tasks)"
  by (simp add: dispatcher_inv_def membership_inv_def fifo_inv_def counting_inv_def
      futures_inv_def running_def init_def)

lemma dispatcher_inv_step:
  "dispatcher_inv C s \<Longrightarrow> step e s = Some s' \<Longrightarrow> dispatcher_inv C s'"
  unfolding dispatcher_inv_def
  by (blast intro: membership_inv_step fifo_inv_step counting_inv_step futures_inv_step)

lemma dispatcher_inv_run:
  "run es (init max_tasks) = Some s \<Longrightarrow> dispatcher_inv max_tasks s"
proof (rule run_invariant [where P = "dispatcher_inv max_tasks"])
  show "dispatcher_inv max_tasks (init max_tasks)" by (rule dispatcher_inv_init)
qed (auto intro: dispatcher_inv_step)

lemma abandoned_step:
  assumes ab: "abandoned s t" and st: "step e s = Some s'"
  shows "abandoned s' t \<and> futures s' t = futures s t"
  using st
proof (cases rule: step_elim)
  case Worker_got
  from worker_got_effect [OF Worker_got(3)] worker_got_frame [OF Worker_got(3)] ab Worker_got(2)
  show ?thesis by (auto simp: abandoned_def tracked_def running_def)
next
  case (Semaphore_acquired req)
  from worker_admit_effect [OF Semaphore_acquired(3)] worker_admit_frame [OF Semaphore_acquired(3)]
    ab Semaphore_acquired(2)
  show ?thesis by (auto simp: abandoned_def tracked_def running_def)
next
  case (Func_to_call_done req w)
  with ab show ?thesis
    by (auto simp: abandoned_def tracked_def running_def split: work_outcome.splits)
qed (use ab in \<open>auto simp: abandoned_def tracked_def running_def\<close>)

lemma abandoned_run:
  "abandoned s t \<Longrightarrow> run es s = Some s' \<Longrightarrow> abandoned s' t \<and> futures s' t = futures s t"
proof (induction es arbitrary: s)
  case Nil
  then show ?case by simp
next
  case (Cons e es)
  from Cons.prems(2) obtain s1 where s1: "step e s = Some s1" and rest: "run es s1 = Some s'"
    by (auto split: option.splits)
  from abandoned_step [OF Cons.prems(1) s1] Cons.IH [OF _ rest] show ?case by simp
qed

lemma no_clear_step:
  assumes eq: "dequeued s @ queue s = enqueued s" and e: "e \<noteq> Clear_gpt_queue"
    and st: "step e s = Some s'"
  shows "dequeued s' @ queue s' = enqueued s'"
  using st
proof (cases rule: step_elim)
  case Worker_got
  from worker_got_effect [OF Worker_got(3)] worker_got_frame [OF Worker_got(3)] eq
  show ?thesis by auto
next
  case (Semaphore_acquired req)
  from worker_admit_frame [OF Semaphore_acquired(3)] eq show ?thesis by simp
next
  case (Send_message_done cid out mid now user chat)
  with eq show ?thesis by (simp flip: append_assoc)
qed (use eq e in auto)

lemma no_clear_run:
  "dequeued s @ queue s = enqueued s \<Longrightarrow> Clear_gpt_queue \<notin> set es \<Longrightarrow>
   run es s = Some s' \<Longrightarrow> dequeued s' @ queue s' = enqueued s'"
proof (induction es arbitrary: s)
  case Nil
  then show ?case by simp
next
  case (Cons e es)
  from Cons.prems(3) obtain s1 where s1: "step e s = Some s1" and rest: "run es s1 = Some s'"
    by (auto split: option.splits)
  from Cons.prems(2) have "e \<noteq> Clear_gpt_queue" "Clear_gpt_queue \<notin> set es" by auto
  from no_clear_step [OF Cons.prems(1) this(1) s1] this(2) rest show ?case by (rule Cons.IH)
qed

section \<open>The claims about the dispatcher\<close>

lemma spawned_inv_step:
  assumes inv: "spawned_inv s" and st: "step e s = Some s'"
  shows "spawned_inv s'"
  using st
proof (cases rule: step_elim)
  case Worker_got
  from worker_got_frame [OF Worker_got(3)] inv show ?thesis by (simp add: spawned_inv_def)
next
  case (Semaphore_acquired req)
  from worker_admit_effect [OF Semaphore_acquired(3)] worker_admit_frame [OF Semaphore_acquired(3)]
    inv
  show ?thesis by (auto simp: spawned_inv_def)
qed (use inv in \<open>auto simp: spawned_inv_def\<close>)

lemma spawned_inv_run: "run es (init max_tasks) = Some s \<Longrightarrow> spawned_inv s"
proof (rule run_invariant [where P = spawned_inv])
  show "spawned_inv (init max_tasks)" by (simp add: spawned_inv_def init_def)
qed (auto intro: spawned_inv_step)

lemma holds_held: "holds w t \<longleftrightarrow> t \<in> set (held w)"
  by (cases w) auto

lemma finishing_step:
  assumes inv: "membership_inv s" and st: "step e s = Some s'"
    and before: "processes s t \<noteq> Some Finished" and after: "processes s' t = Some Finished"
  shows "t \<in> active_requests s \<and> t \<notin> active_requests s'"
  using st
proof (cases rule: step_elim)
  case Worker_got
  from worker_got_frame [OF Worker_got(3)] before after show ?thesis by simp
next
  case (Semaphore_acquired req)
  from worker_admit_effect [OF Semaphore_acquired(3)] before after show ?thesis
    by (auto split: if_splits)
next
  case (Notify_in_progress_done req out)
  with inv before after show ?thesis
    by (auto simp: membership_inv_def running_def split: if_splits)
next
  case (Func_to_call_done req w)
  with inv before after show ?thesis
    by (auto simp: membership_inv_def running_def split: if_splits work_outcome.splits)
next
  case (Notify_finished_done req out)
  with inv before after show ?thesis
    by (auto simp: membership_inv_def running_def split: if_splits)
qed (use before after in auto)

lemma leaving_step:
  assumes st: "step e s = Some s'"
    and before: "t \<in> active_requests s" and after: "t \<notin> active_requests s'"
  shows "processes s' t = Some Finished"
  using st
proof (cases rule: step_elim)
  case Worker_got
  from worker_got_effect [OF Worker_got(3)] before after show ?thesis by auto
next
  case (Semaphore_acquired req)
  from worker_admit_frame [OF Semaphore_acquired(3)] before after show ?thesis by simp
next
  case (Func_to_call_done req w)
  with before after show ?thesis by (auto split: if_splits work_outcome.splits)
qed (use before after in \<open>auto split: if_splits\<close>)

lemma add_request_sent_adders:
  "submitter (add_request_sent cid user chat out mid now s) = (submitter s)(next_tid s \<mapsto> cid)"
  "\<exists>pc. adders (add_request_sent cid user chat out mid now s) = (adders s)(cid \<mapsto> pc) \<and>
     (pc = Returned (next_tid s) \<or>
      (\<exists>items n. pc = Adder_updating (next_tid s) now items n))"
  by (auto simp: add_request_sent_def queue_put_def Let_def split: list.split)

lemma add_request_edited_adders:
  "\<exists>pc. adders (add_request_edited cid req now item rest n out s) = (adders s)(cid \<mapsto> pc) \<and>
     (pc = Returned req \<or> pc = Adder_updating req now rest n)"
  by (auto simp: add_request_edited_def Let_def)

lemma submitter_inv_step:
  assumes inv: "submitter_inv s" and st: "step e s = Some s'"
  shows "submitter_inv s'"
  using st
proof (cases rule: step_elim)
  case (Add_request cid user chat)
  have "submitter s' = submitter s" "next_tid s' = next_tid s" using Add_request by simp_all
  moreover have "adders s' c = adders s c" if "adders s c \<noteq> None" for c
    using Add_request that by auto
  ultimately show ?thesis using inv unfolding submitter_inv_def by (metis option.distinct(1))
next
  case (Send_message_done cid out mid now user chat)
  from add_request_sent_adders [of cid user chat out mid now s] Send_message_done(3)
  obtain pc where sub: "submitter s' = (submitter s)(next_tid s \<mapsto> cid)"
    and ad: "adders s' = (adders s)(cid \<mapsto> pc)"
    and pc: "pc = Returned (next_tid s) \<or>
      (\<exists>items n. pc = Adder_updating (next_tid s) now items n)"
    by auto
  from Send_message_done have nt: "next_tid s' = Suc (next_tid s)" by simp
  show ?thesis unfolding submitter_inv_def
  proof
    fix req
    show "if req < next_tid s'
      then \<exists>c. submitter s' req = Some c \<and>
             (adders s' c = Some (Returned req) \<or>
              (\<exists>now items n. adders s' c = Some (Adder_updating req now items n)))
      else submitter s' req = None"
    proof (cases "req < next_tid s")
      case True
      with inv obtain c where c: "submitter s req = Some c"
        and a: "adders s c = Some (Returned req) \<or>
              (\<exists>now items n. adders s c = Some (Adder_updating req now items n))"
        unfolding submitter_inv_def by metis
      from a Send_message_done(2) have "c \<noteq> cid" by auto
      with True c a sub ad nt show ?thesis by auto
    next
      case False
      show ?thesis
      proof (cases "req = next_tid s")
        case True
        with sub ad pc nt show ?thesis by auto
      next
        case False
        with \<open>\<not> req < next_tid s\<close> inv have "submitter s req = None"
          unfolding submitter_inv_def by metis
        with False \<open>\<not> req < next_tid s\<close> sub nt show ?thesis by auto
      qed
    qed
  qed
next
  case (Add_edit_done cid out req now item rest n)
  from add_request_edited_adders [of cid req now item rest n out s] Add_edit_done(3)
  obtain pc where ad: "adders s' = (adders s)(cid \<mapsto> pc)"
    and pc: "pc = Returned req \<or> pc = Adder_updating req now rest n"
    by auto
  from Add_edit_done have same: "submitter s' = submitter s" "next_tid s' = next_tid s"
    by simp_all
  show ?thesis unfolding submitter_inv_def
  proof
    fix r
    show "if r < next_tid s'
      then \<exists>c. submitter s' r = Some c \<and>
             (adders s' c = Some (Returned r) \<or>
              (\<exists>now items n. adders s' c = Some (Adder_updating r now items n)))
      else submitter s' r = None"
    proof (cases "r < next_tid s")
      case True
      with inv obtain c where c: "submitter s r = Some c"
        and a: "adders s c = Some (Returned r) \<or>
              (\<exists>now items n. adders s c = Some (Adder_updating r now items n))"
        unfolding submitter_inv_def by metis
      show ?thesis
      proof (cases "c = cid")
        case True
        with a Add_edit_done(2) have "r = req" by auto
        with True c ad pc same \<open>r < next_tid s\<close> show ?thesis by auto
      next
        case False
        with c a ad same \<open>r < next_tid s\<close> show ?thesis by auto
      qed
    next
      case False
      with inv have "submitter s r = None" unfolding submitter_inv_def by metis
      with False same show ?thesis by simp
    qed
  qed
next
  case Worker_got
  from worker_got_frame [OF Worker_got(3)] inv show ?thesis by (simp add: submitter_inv_def)
next
  case (Semaphore_acquired req)
  from worker_admit_frame [OF Semaphore_acquired(3)] inv show ?thesis
    by (simp add: submitter_inv_def)
qed (use inv in \<open>auto simp: submitter_inv_def\<close>)

lemma cancel_worker_fields [simp]:
  "queue (cancel_worker s) = queue s"
  "active_requests (cancel_worker s) = active_requests s"
  "next_tid (cancel_worker s) = next_tid s"
  "futures (cancel_worker s) = futures s"
  "processes (cancel_worker s) = processes s"
  "adders (cancel_worker s) = adders s"
  "submitter (cancel_worker s) = submitter s"
  "unfinished_tasks (cancel_worker s) = unfinished_tasks s"
  "semaphore (cancel_worker s) = semaphore s"
  "enqueued (cancel_worker s) = enqueued s"
  "dequeued (cancel_worker s) = dequeued s"
  "spawned (cancel_worker s) = spawned s"
  "held (worker_task (cancel_worker s)) = held (worker_task s)"
  "holds (worker_task (cancel_worker s)) t = holds (worker_task s) t"
  "worker_task (cancel_worker s) = Worker_failed \<longleftrightarrow> worker_task s = Worker_failed"
  by (simp_all add: cancel_worker_def holds_held split: worker_pc.split)

lemma running_cancel_worker [simp]: "running (cancel_worker s) t = running s t"
  by (simp add: running_def)

lemma awaited_cancel_worker [simp]: "awaited (cancel_worker s) t = awaited s t"
  by (simp add: awaited_def split: option.split)

lemma dispatcher_inv_cancel_worker:
  "dispatcher_inv C s \<Longrightarrow> dispatcher_inv C (cancel_worker s)"
  by (auto simp: dispatcher_inv_def membership_inv_def fifo_inv_def counting_inv_def
      futures_inv_def)

lemma submitter_inv_cancel_worker: "submitter_inv s \<Longrightarrow> submitter_inv (cancel_worker s)"
  by (simp add: submitter_inv_def)

lemma shutdown_invariants:
  assumes "run es (init max_tasks) = Some s1" and "run es' (cancel_worker s1) = Some s2"
  shows "dispatcher_inv max_tasks s2 \<and> submitter_inv s2"
proof -
  have "submitter_inv s1"
  proof (rule run_invariant [where P = submitter_inv, OF _ _ assms(1)])
    show "submitter_inv (init max_tasks)" by (simp add: submitter_inv_def init_def)
  qed (auto intro: submitter_inv_step)
  then have "submitter_inv (cancel_worker s1)" by (rule submitter_inv_cancel_worker)
  then have a: "submitter_inv s2"
    using assms(2) by (rule run_invariant [where P = submitter_inv, rotated])
      (rule submitter_inv_step)
  from dispatcher_inv_run [OF assms(1)]
  have "dispatcher_inv max_tasks (cancel_worker s1)" by (rule dispatcher_inv_cancel_worker)
  then have "dispatcher_inv max_tasks s2"
    using assms(2) by (rule run_invariant [where P = "dispatcher_inv max_tasks", rotated])
      (rule dispatcher_inv_step)
  with a show ?thesis by simp
qed

lemmas eval_defs = init_def add_request_sent_def add_request_edited_def bot_called_def
  log_entry_def queue_put_def update_interval_def update_positions_item_def
  edit_position_message_def worker_got_def worker_admit_def task_done_def
  semaphore_acquire_def semaphore_release_def create_process_task_def process_notified_def
  process_called_def process_deleted_def process_except_def process_finally_def process_return_def
  notify_in_progress_def notify_finished_def updater_woke_def updater_edited_def
  clear_gpt_queue_def Let_def enumerate_eq_zip

lemma run_append:
  "run (xs @ ys) s = (case run xs s of None \<Rightarrow> None | Some s' \<Rightarrow> run ys s')"
  by (induction xs arbitrary: s) (auto split: option.splits)

lemma tokens_inv_step:
  assumes inv: "tokens_inv s" and st: "step e s = Some s'"
  shows "tokens_inv s'"
  using st
proof (cases rule: step_elim)
  case Worker_got
  from worker_got_effect [OF Worker_got(3)] worker_got_frame [OF Worker_got(3)] inv Worker_got(2)
  show ?thesis by (auto simp: tokens_inv_def)
next
  case (Semaphore_acquired req)
  from worker_admit_effect [OF Semaphore_acquired(3)] worker_admit_frame [OF Semaphore_acquired(3)]
    inv Semaphore_acquired(2)
  show ?thesis by (auto simp: tokens_inv_def)
qed (use inv in \<open>auto simp: tokens_inv_def\<close>)

lemma admission_takes_both_tokens:
  assumes "run es (init max_tasks) = Some s"
  shows "length (spawned s) \<le> limiter_hour_acquired s \<and>
    limiter_hour_acquired s \<le> limiter_sec_acquired s \<and>
    limiter_sec_acquired s \<le> Suc (length (spawned s))"
proof -
  have "tokens_inv s"
  proof (rule run_invariant [where P = tokens_inv, OF _ _ assms])
    show "tokens_inv (init max_tasks)" by (simp add: tokens_inv_def init_def)
  qed (auto intro: tokens_inv_step)
  then show ?thesis by (auto simp: tokens_inv_def split: worker_pc.splits)
qed


text \<open>
  Claim C1 (the code departs from it). The claim: with a gate of size \<open>C\<close>, never more
  than \<open>C\<close> requests execute their \<^verbatim>\<open>func_to_call\<close> at once, the permit being held
  until the execution settles. The code: the \<^verbatim>\<open>async with\<close> block of \<^verbatim>\<open>worker\<close>
  only surrounds \<^verbatim>\<open>asyncio.create_task\<close>, so the permit is back as soon as the task
  is created. With \<open>max_tasks = 1\<close> and two submissions, both requests are awaiting
  their \<^verbatim>\<open>func_to_call\<close> at the same time, and the semaphore's value is 1.
\<close>

theorem concurrency_gate_not_held:
  "map_option (\<lambda>s. (executing s, semaphore s)) (run burst (init 1)) = Some ([0, 1], 1)"
  by (simp add: burst_def executing_def eval_defs)

lemma served_and_stopped_state:
  "\<exists>s. run served_and_stopped (init 1) = Some s \<and> abandoned s 1
     \<and> futures s 0 = Some (Result ''text'') \<and> futures s 1 = Some Pending
     \<and> processes s 1 = Some Finished"
  by (simp add: served_and_stopped_def abandoned_def tracked_def running_def eval_defs)

lemma dropped_state:
  "\<exists>s. run dropped (init 1) = Some s \<and> abandoned s 0 \<and> futures s 0 = Some Pending"
  by (simp add: dropped_def one_queued_def abandoned_def tracked_def running_def eval_defs)

text \<open>
  Claim C2 (the code departs from it). The claim: the future returned by
  \<^verbatim>\<open>add_request\<close> is resolved exactly once and never left unresolved. The code: the
  \<^verbatim>\<open>except Exception\<close> clause of \<^verbatim>\<open>process_task\<close> only logs, and
  \<^verbatim>\<open>clear_gpt_queue\<close> drops requests without touching their futures. In the run
  \<open>served_and_stopped\<close> the first request is served and its future holds the result;
  for the second an exception reaches the \<^verbatim>\<open>except\<close> clause (raised by the bot in
  \<^verbatim>\<open>_notify_in_progress\<close>: the payloads themselves are wrapped by
  \<^verbatim>\<open>error_handler\<close> and return a value instead of raising), the task ends, and the
  future is pending in every later state of the dispatcher. So is the future of a request
  removed by \<^verbatim>\<open>clear_gpt_queue\<close>.
\<close>

theorem accepted_future_never_settles:
  "map_option (\<lambda>s. (futures s 0, futures s 1, processes s 1))
     (run served_and_stopped (init 1))
     = Some (Some (Result ''text''), Some Pending, Some Finished)
   \<and> (\<forall>es. map_option (\<lambda>s. futures s 1) (run (served_and_stopped @ es) (init 1))
          \<in> {None, Some (Some Pending)})
   \<and> (\<forall>es. map_option (\<lambda>s. futures s 0) (run (dropped @ es) (init 1))
          \<in> {None, Some (Some Pending)})"
proof -
  from served_and_stopped_state obtain s where s: "run served_and_stopped (init 1) = Some s"
    and ab: "abandoned s 1" and f0: "futures s 0 = Some (Result ''text'')"
    and f1: "futures s 1 = Some Pending" and p: "processes s 1 = Some Finished"
    by blast
  from dropped_state obtain d where d: "run dropped (init 1) = Some d"
    and abd: "abandoned d 0" and fd: "futures d 0 = Some Pending"
    by blast
  have one: "map_option (\<lambda>s. futures s 1) (run (served_and_stopped @ es) (init 1))
          \<in> {None, Some (Some Pending)}" for es
  proof (cases "run es s")
    case None
    with s show ?thesis by (simp add: run_append)
  next
    case (Some s')
    from abandoned_run [OF ab Some] f1 have "futures s' 1 = Some Pending" by simp
    with s Some show ?thesis by (simp add: run_append)
  qed
  have two: "map_option (\<lambda>s. futures s 0) (run (dropped @ es) (init 1))
          \<in> {None, Some (Some Pending)}" for es
  proof (cases "run es d")
    case None
    with d show ?thesis by (simp add: run_append)
  next
    case (Some s')
    from abandoned_run [OF abd Some] fd have "futures s' 0 = Some Pending" by simp
    with d Some show ?thesis by (simp add: run_append)
  qed
  from one two s f0 f1 p show ?thesis by simp
qed

lemma sink_fails_state:
  "\<exists>s. run sink_fails (init 1) = Some s \<and> abandoned s 0 \<and> futures s 0 = Some Pending
     \<and> processes s 0 = Some Finished \<and> logged s = [Exc_process_task]"
  by (simp add: sink_fails_def one_request_def abandoned_def tracked_def running_def eval_defs)

text \<open>
  Claim C6 (the code departs from it). The claim: no failure of the notification sink
  affects the execution of a request or the resolution of its future. The code:
  \<^verbatim>\<open>_notify_in_progress\<close> catches \<^verbatim>\<open>TelegramAPIError\<close> only. When
  \<^verbatim>\<open>edit_message_text\<close> raises another \<^verbatim>\<open>Exception\<close> there, \<^verbatim>\<open>process_task\<close> logs
  it and ends: \<^verbatim>\<open>func_to_call\<close> is never awaited and the future stays pending for
  good. With a \<^verbatim>\<open>TelegramAPIError\<close> at the same place the request goes on to
  \<^verbatim>\<open>func_to_call\<close>.
\<close>

theorem sink_failure_stops_the_request:
  "map_option (\<lambda>s. (futures s 0, processes s 0, logged s))
     (run sink_fails (init 1)) = Some (Some Pending, Some Finished, [Exc_process_task])
   \<and> (\<forall>es. map_option (\<lambda>s. futures s 0) (run (sink_fails @ es) (init 1))
          \<in> {None, Some (Some Pending)})
   \<and> map_option (\<lambda>s. processes s 0)
       (run (one_request @ [Notify_in_progress_done 0 TelegramAPIError]) (init 1))
     = Some (Some Func_to_call)"
proof -
  from sink_fails_state obtain s where s: "run sink_fails (init 1) = Some s"
    and ab: "abandoned s 0" and f: "futures s 0 = Some Pending"
    and p: "processes s 0 = Some Finished" and l: "logged s = [Exc_process_task]"
    by blast
  have "map_option (\<lambda>s. futures s 0) (run (sink_fails @ es) (init 1))
          \<in> {None, Some (Some Pending)}" for es
  proof (cases "run es s")
    case None
    with s show ?thesis by (simp add: run_append)
  next
    case (Some s')
    from abandoned_run [OF ab Some] f have "futures s' 0 = Some Pending" by simp
    with s Some show ?thesis by (simp add: run_append)
  qed
  moreover have "map_option (\<lambda>s. processes s 0)
       (run (one_request @ [Notify_in_progress_done 0 TelegramAPIError]) (init 1))
     = Some (Some Func_to_call)"
    by (simp add: one_request_def eval_defs)
  ultimately show ?thesis using s f p l by simp
qed


lemma burst_runs:
  "\<exists>s. run burst (init 1) = Some s \<and> dequeued s = [0, 1] \<and> enqueued s = [0, 1]
     \<and> queue s = [] \<and> active_requests s = {0, 1} \<and> running s 0"
  by (simp add: burst_def running_def eval_defs insert_commute)

text \<open>
  Claim C4. In every reachable state the requests taken by the worker, in the order of
  \<^verbatim>\<open>queue.get\<close>, are a subsequence of the requests in the order of \<^verbatim>\<open>queue.put\<close>,
  which has no repetition: no request is dequeued before one that was enqueued earlier.
  The tasks are created in the order of dequeuing (the dequeued requests are the
  spawned ones followed by the one the worker holds, if any). As long as the queue has
  not been cleared, the dequeued requests followed by the queue are exactly the enqueued
  ones.
\<close>

theorem fifo_admission:
  assumes "run es (init max_tasks) = Some s"
  shows "subseq (dequeued s) (enqueued s) \<and> distinct (enqueued s)
    \<and> dequeued s = spawned s @ held (worker_task s)
    \<and> (Clear_gpt_queue \<notin> set es \<longrightarrow> dequeued s @ queue s = enqueued s)"
proof -
  from dispatcher_inv_run [OF assms] have inv: "fifo_inv s"
    by (simp add: dispatcher_inv_def)
  then have "subseq (dequeued s @ queue s) (enqueued s)" by (simp add: fifo_inv_def)
  moreover have "subseq (dequeued s) (dequeued s @ queue s)" by (simp add: prefix_imp_subseq)
  ultimately have sub: "subseq (dequeued s) (enqueued s)"
    by (rule subseq_order.order_trans [rotated])
  from inv have "enqueued s = [0..<next_tid s]" by (simp add: fifo_inv_def)
  then have dist: "distinct (enqueued s)" by simp
  from inv have sp: "dequeued s = spawned s @ held (worker_task s)"
    by (simp add: fifo_inv_def)
  have "dequeued s @ queue s = enqueued s" if "Clear_gpt_queue \<notin> set es"
    using no_clear_run [OF _ that assms] by (simp add: init_def)
  with sub dist sp show ?thesis by blast
qed

theorem fifo_admission_witness:
  "\<exists>s. run burst (init 1) = Some s \<and> Clear_gpt_queue \<notin> set burst
     \<and> dequeued s = [0, 1] \<and> enqueued s = [0, 1]
     \<and> subseq (dequeued s) (enqueued s) \<and> dequeued s @ queue s = enqueued s"
proof -
  from burst_runs obtain s where s: "run burst (init 1) = Some s"
    and d: "dequeued s = [0, 1]" and e: "enqueued s = [0, 1]"
    by blast
  have nc: "Clear_gpt_queue \<notin> set burst" by (simp add: burst_def)
  from fifo_admission [OF s] nc s d e show ?thesis by blast
qed

text \<open>
  Claim C7 (amended). In every reachable state, that is at every suspension point: a
  request that has been created, whose \<^verbatim>\<open>process_task\<close> has not ended, and that
  \<^verbatim>\<open>clear_gpt_queue\<close> has not dropped (it is still queued or was dequeued by the
  worker) is in exactly one of the queue and \<open>active_requests\<close>; in a run without
  \<^verbatim>\<open>clear_gpt_queue\<close> that is every created request. A request in
  \<open>active_requests\<close> has been dequeued and its \<^verbatim>\<open>process_task\<close> has not ended; a
  request whose \<^verbatim>\<open>process_task\<close> has ended is in neither collection. The step of
  the worker that dequeues a request takes it out of the queue and puts it into
  \<open>active_requests\<close>; the step in which a \<^verbatim>\<open>process_task\<close> ends, by success or by
  failure, removes its request from \<open>active_requests\<close>, and no other step removes a
  request from there.
\<close>

theorem request_membership:
  assumes "run es (init max_tasks) = Some s"
  shows "(t < next_tid s \<and> processes s t \<noteq> Some Finished \<and>
            (t \<in> set (queue s) \<or> t \<in> set (dequeued s)) \<longrightarrow>
          (t \<in> set (queue s)) \<noteq> (t \<in> active_requests s))
    \<and> (Clear_gpt_queue \<notin> set es \<and> t < next_tid s \<longrightarrow>
          t \<in> set (queue s) \<or> t \<in> set (dequeued s))
    \<and> (t \<in> active_requests s \<longrightarrow> t \<in> set (dequeued s) \<and> processes s t \<noteq> Some Finished)
    \<and> (processes s t = Some Finished \<longrightarrow> t \<notin> set (queue s) \<and> t \<notin> active_requests s)
    \<and> (\<forall>s'. step Worker_got s = Some s' \<longrightarrow>
          (\<exists>req rest. queue s = req # rest \<and> queue s' = rest \<and> req \<notin> set rest
             \<and> req \<in> active_requests s'))
    \<and> (\<forall>e s'. step e s = Some s' \<and> processes s t \<noteq> Some Finished
             \<and> processes s' t = Some Finished \<longrightarrow>
          t \<in> active_requests s \<and> t \<notin> active_requests s')
    \<and> (\<forall>e s'. step e s = Some s' \<and> t \<in> active_requests s \<and> t \<notin> active_requests s' \<longrightarrow>
          processes s' t = Some Finished)"
proof -
  from dispatcher_inv_run [OF assms] have mem: "membership_inv s" and fifo: "fifo_inv s"
    by (simp_all add: dispatcher_inv_def)
  note sp = spawned_inv_run [OF assms]
  from fifo have "dequeued s = spawned s @ held (worker_task s)"
    by (simp add: fifo_inv_def)
  then have deq: "set (dequeued s) = set (spawned s) \<union> set (held (worker_task s))"
    by simp
  from mem have q: "t \<in> set (queue s) \<Longrightarrow>
      t \<notin> active_requests s \<and> \<not> holds (worker_task s) t \<and> processes s t = None"
    and a: "t \<in> active_requests s \<longleftrightarrow> holds (worker_task s) t \<or> running s t"
    and h: "holds (worker_task s) t \<Longrightarrow> processes s t = None"
    and d: "distinct (queue s)"
    by (auto simp: membership_inv_def running_def)
  have in_deq: "t \<in> set (dequeued s) \<longleftrightarrow> holds (worker_task s) t \<or> processes s t \<noteq> None"
    using deq sp by (auto simp: spawned_inv_def holds_held)
  have run_iff: "running s t \<longleftrightarrow> processes s t \<noteq> None \<and> processes s t \<noteq> Some Finished"
    by (auto simp: running_def split: option.splits process_pc.splits)
  have one: "t < next_tid s \<and> processes s t \<noteq> Some Finished \<and>
            (t \<in> set (queue s) \<or> t \<in> set (dequeued s)) \<longrightarrow>
          (t \<in> set (queue s)) \<noteq> (t \<in> active_requests s)"
    using q a in_deq run_iff by auto
  have two: "Clear_gpt_queue \<notin> set es \<and> t < next_tid s \<longrightarrow>
          t \<in> set (queue s) \<or> t \<in> set (dequeued s)"
  proof
    assume c: "Clear_gpt_queue \<notin> set es \<and> t < next_tid s"
    then have "dequeued s @ queue s = enqueued s"
      using no_clear_run [OF _ _ assms] by (simp add: init_def)
    moreover from fifo have "enqueued s = [0..<next_tid s]" by (simp add: fifo_inv_def)
    ultimately have "set (dequeued s) \<union> set (queue s) = {0..<next_tid s}"
      by (metis set_append set_upt)
    with c show "t \<in> set (queue s) \<or> t \<in> set (dequeued s)" by auto
  qed
  have three: "t \<in> active_requests s \<longrightarrow>
      t \<in> set (dequeued s) \<and> processes s t \<noteq> Some Finished"
    using a h in_deq run_iff by auto
  have four: "processes s t = Some Finished \<longrightarrow>
      t \<notin> set (queue s) \<and> t \<notin> active_requests s"
    using q a h run_iff by auto
  have five: "\<forall>s'. step Worker_got s = Some s' \<longrightarrow>
          (\<exists>req rest. queue s = req # rest \<and> queue s' = rest \<and> req \<notin> set rest
             \<and> req \<in> active_requests s')"
  proof (intro allI impI)
    fix s' assume "step Worker_got s = Some s'"
    then have "worker_got s = Some s'" by (auto split: worker_pc.splits)
    from worker_got_effect [OF this] d show "\<exists>req rest. queue s = req # rest \<and>
        queue s' = rest \<and> req \<notin> set rest \<and> req \<in> active_requests s'"
      by auto
  qed
  have six: "\<forall>e s'. step e s = Some s' \<and> processes s t \<noteq> Some Finished
             \<and> processes s' t = Some Finished \<longrightarrow>
          t \<in> active_requests s \<and> t \<notin> active_requests s'"
    using finishing_step [OF mem] by blast
  have seven: "\<forall>e s'. step e s = Some s' \<and> t \<in> active_requests s
         \<and> t \<notin> active_requests s' \<longrightarrow> processes s' t = Some Finished"
    using leaving_step by blast
  from one two three four five six seven show ?thesis by blast
qed

lemma almost_served_state:
  "\<exists>s. run almost_served (init 1) = Some s \<and> processes s 0 = Some Notify_finished
     \<and> queue s = [] \<and> next_tid s = 1 \<and> dequeued s = [0]
     \<and> step (Notify_finished_done 0 Ok) s = Some (process_deleted Ok 0 s)"
  by (simp add: almost_served_def one_request_def eval_defs)

theorem request_membership_witness:
  "\<exists>s s'. run almost_served (init 1) = Some s \<and> step (Notify_finished_done 0 Ok) s = Some s'
     \<and> 0 < next_tid s \<and> 0 \<in> set (dequeued s) \<and> 0 \<notin> set (queue s)
     \<and> 0 \<in> active_requests s \<and> processes s 0 \<noteq> Some Finished
     \<and> processes s' 0 = Some Finished \<and> 0 \<notin> active_requests s'"
proof -
  from almost_served_state obtain s where s: "run almost_served (init 1) = Some s"
    and p: "processes s 0 = Some Notify_finished" and n: "next_tid s = 1"
    and dq: "dequeued s = [0]" and q: "queue s = []"
    and st: "step (Notify_finished_done 0 Ok) s = Some (process_deleted Ok 0 s)"
    by blast
  let ?s' = "process_deleted Ok 0 s"
  have fin: "processes ?s' 0 = Some Finished" by simp
  from p have nf: "processes s 0 \<noteq> Some Finished" by simp
  note m = request_membership [OF s, of 0]
  from m n dq q nf have act: "0 \<in> active_requests s" by simp
  from m st nf fin have gone: "0 \<notin> active_requests ?s'" by blast
  from s st n dq q act nf fin gone show ?thesis by auto
qed

text \<open>
  Claim C7 as stated fails after \<^verbatim>\<open>clear_gpt_queue\<close>: the request has been created,
  no \<^verbatim>\<open>process_task\<close> has run for it and its future is pending, yet it is neither in
  the queue nor in \<open>active_requests\<close>.
\<close>

theorem dropped_request_counterexample:
  "run dropped (init 1) \<noteq> None
   \<and> 0 < next_tid (the (run dropped (init 1)))
   \<and> processes (the (run dropped (init 1))) 0 = None
   \<and> futures (the (run dropped (init 1))) 0 = Some Pending
   \<and> 0 \<notin> set (queue (the (run dropped (init 1))))
   \<and> 0 \<notin> active_requests (the (run dropped (init 1)))"
  by (simp add: dropped_def one_queued_def eval_defs)

text \<open>
  Claim C8. A step of the periodic status updater (waking up and taking the snapshot,
  or resuming after the edit of one item) changes nothing but the updater's own position
  (its snapshot and loop index), the calls received by the bot and the log: the queue,
  \<open>unfinished_tasks\<close>, the semaphore, the limiters, \<open>last_position_update\<close>,
  \<open>active_requests\<close>, the requests, the futures and every other coroutine are as
  before.
\<close>

theorem status_update_frame:
  assumes "step Updater_woke s = Some s' \<or> step (Updater_edit_done out) s = Some s'"
  shows "s' = s\<lparr>status_updater_task := status_updater_task s',
                 bot_calls := bot_calls s', logged := logged s'\<rparr>"
  using assms
  by (cases out)
    (auto simp: updater_woke_def updater_edited_def update_positions_item_def
      edit_position_message_def bot_called_def log_entry_def Let_def
      split: updater_pc.splits list.splits)

lemma one_queued_runs:
  "\<exists>s. run one_queued (init 1) = Some s \<and> queue s = [0] \<and> status_updater_task s = Sleeping"
  by (simp add: one_queued_def eval_defs)

theorem status_update_frame_witness:
  "\<exists>s s'. run one_queued (init 1) = Some s \<and> step Updater_woke s = Some s'
     \<and> status_updater_task s' = Updating [(0, 0)] 1
     \<and> s' = s\<lparr>status_updater_task := status_updater_task s',
                 bot_calls := bot_calls s', logged := logged s'\<rparr>"
proof -
  from one_queued_runs obtain s where s: "run one_queued (init 1) = Some s"
    and q: "queue s = [0]" and u: "status_updater_task s = Sleeping" by blast
  from u have st: "step Updater_woke s = Some (updater_woke s)" by simp
  from q have up: "status_updater_task (updater_woke s) = Updating [(0, 0)] 1"
    by (simp add: updater_woke_def enumerate_eq_zip)
  from status_update_frame [of s "updater_woke s" Ok] st s up show ?thesis by blast
qed

text \<open>
  Claim C9. In every reachable state, \<^verbatim>\<open>clear_gpt_queue\<close> empties the queue and
  leaves every future as it was; the future of a request \<open>t\<close> that was queued is
  pending, and stays pending in every state the dispatcher reaches afterwards.
\<close>

theorem clear_queue_leaves_futures_pending:
  assumes "run es (init max_tasks) = Some s" and "t \<in> set (queue s)"
  shows "queue (clear_gpt_queue s) = [] \<and> futures (clear_gpt_queue s) = futures s
    \<and> futures s t = Some Pending
    \<and> (\<forall>es' s'. run es' (clear_gpt_queue s) = Some s' \<longrightarrow> futures s' t = Some Pending)"
proof -
  from dispatcher_inv_run [OF assms(1)] have mem: "membership_inv s" and fut: "futures_inv s"
    by (simp_all add: dispatcher_inv_def)
  from mem assms(2) have t: "t < next_tid s" "processes s t = None"
    "\<not> holds (worker_task s) t"
    by (simp_all add: membership_inv_def)
  from fut t have p: "futures s t = Some Pending"
    unfolding futures_inv_def by (metis option.distinct(1))
  from t have ab: "abandoned (clear_gpt_queue s) t"
    by (simp add: abandoned_def tracked_def running_def)
  have "futures s' t = Some Pending" if "run es' (clear_gpt_queue s) = Some s'" for es' s'
    using abandoned_run [OF ab that] p by simp
  with p show ?thesis by simp
qed

theorem clear_queue_leaves_futures_pending_witness:
  "\<exists>s. run one_queued (init 1) = Some s \<and> 0 \<in> set (queue s)
     \<and> queue (clear_gpt_queue s) = [] \<and> futures (clear_gpt_queue s) 0 = Some Pending
     \<and> map_option (\<lambda>s'. futures s' 0)
          (run [Worker_got, Updater_woke] (clear_gpt_queue s)) = None
     \<and> map_option (\<lambda>s'. futures s' 0)
          (run [Updater_woke, Add_request 1 8 80] (clear_gpt_queue s)) = Some (Some Pending)"
proof -
  from one_queued_runs obtain s where s: "run one_queued (init 1) = Some s"
    and q: "queue s = [0]" and u: "status_updater_task s = Sleeping" by blast
  from q have m: "0 \<in> set (queue s)" by simp
  note c = clear_queue_leaves_futures_pending [OF s m]
  have w: "worker_task s = Queue_get"
    using s by (simp add: one_queued_def eval_defs) auto
  have r1: "run [Worker_got, Updater_woke] (clear_gpt_queue s) = None"
    using w by (simp add: worker_got_def)
  obtain s' where r2: "run [Updater_woke, Add_request 1 8 80] (clear_gpt_queue s) = Some s'"
    using u s by (simp add: one_queued_def eval_defs split: option.splits) auto
  from c r2 have "futures s' 0 = Some Pending" by blast
  with c s m r1 r2 show ?thesis by auto
qed

text \<open>
  Claim C3 (amended). Let \<^verbatim>\<open>shutdown_bot\<close> run in a reachable state, and let \<open>s2\<close>
  be the state in which it cancels the tasks. Every request that is then queued, held by
  the worker, or in its \<^verbatim>\<open>process_task\<close> before the result is set, and whose
  submitter awaits the future, has its future cancelled, a state distinct from a result
  and from a failure. A future that holds a result keeps it; a future that no submitter
  awaits is left as it is, and that is the case exactly for a request whose
  \<^verbatim>\<open>add_request\<close> call has not returned yet. Afterwards no \<^verbatim>\<open>process_task\<close> is
  running, and \<open>active_requests\<close> holds at most the request that the worker had
  dequeued.
\<close>

theorem shutdown_cancels_awaited_futures:
  assumes "run es (init max_tasks) = Some s1" and "run es' (cancel_worker s1) = Some s2"
  shows "shutdown_bot es' s1 = Some (cancel_tasks s2)
    \<and> ((t \<in> set (queue s2) \<or> holds (worker_task s2) t
          \<or> processes s2 t = Some Notify_in_progress \<or> processes s2 t = Some Func_to_call)
         \<and> awaited s2 t \<longrightarrow> futures (cancel_tasks s2) t = Some Cancelled)
    \<and> (futures s2 t = Some (Result v) \<longrightarrow> futures (cancel_tasks s2) t = Some (Result v))
    \<and> (\<not> awaited s2 t \<longrightarrow> futures (cancel_tasks s2) t = futures s2 t)
    \<and> (t < next_tid s2 \<and> \<not> awaited s2 t \<longrightarrow>
          (\<exists>cid now items n. submitter s2 t = Some cid
             \<and> adders s2 cid = Some (Adder_updating t now items n)))
    \<and> \<not> running (cancel_tasks s2) t
    \<and> (t \<in> active_requests (cancel_tasks s2) \<longrightarrow> holds (worker_task s2) t)"
proof -
  from shutdown_invariants [OF assms] have inv: "dispatcher_inv max_tasks s2"
    and sub: "submitter_inv s2" by simp_all
  from inv have mem: "membership_inv s2" and fut: "futures_inv s2"
    by (simp_all add: dispatcher_inv_def)
  have one: "shutdown_bot es' s1 = Some (cancel_tasks s2)"
    using assms(2) by (simp add: shutdown_bot_def)
  have pend: "futures s2 t = Some Pending"
    if "t \<in> set (queue s2) \<or> holds (worker_task s2) t
          \<or> processes s2 t = Some Notify_in_progress \<or> processes s2 t = Some Func_to_call"
  proof -
    from mem that have "t < next_tid s2"
      by (auto simp: membership_inv_def)
    moreover from mem that have "processes s2 t \<noteq> Some Notify_finished"
      "processes s2 t \<noteq> Some Finished"
      by (auto simp: membership_inv_def)
    ultimately show ?thesis using fut unfolding futures_inv_def by metis
  qed
  have two: "(t \<in> set (queue s2) \<or> holds (worker_task s2) t
          \<or> processes s2 t = Some Notify_in_progress \<or> processes s2 t = Some Func_to_call)
         \<and> awaited s2 t \<longrightarrow> futures (cancel_tasks s2) t = Some Cancelled"
    using pend by (auto simp: cancel_tasks_def)
  have three: "futures s2 t = Some (Result v) \<longrightarrow>
      futures (cancel_tasks s2) t = Some (Result v)"
    by (simp add: cancel_tasks_def)
  have four: "\<not> awaited s2 t \<longrightarrow> futures (cancel_tasks s2) t = futures s2 t"
    by (simp add: cancel_tasks_def)
  have five: "t < next_tid s2 \<and> \<not> awaited s2 t \<longrightarrow>
          (\<exists>cid now items n. submitter s2 t = Some cid
             \<and> adders s2 cid = Some (Adder_updating t now items n))"
  proof
    assume h: "t < next_tid s2 \<and> \<not> awaited s2 t"
    with sub obtain cid where c: "submitter s2 t = Some cid"
      and a: "adders s2 cid = Some (Returned t) \<or>
              (\<exists>now items n. adders s2 cid = Some (Adder_updating t now items n))"
      unfolding submitter_inv_def by metis
    from h c have "adders s2 cid \<noteq> Some (Returned t)" by (simp add: awaited_def)
    with c a show "\<exists>cid now items n. submitter s2 t = Some cid
             \<and> adders s2 cid = Some (Adder_updating t now items n)" by blast
  qed
  have six: "\<not> running (cancel_tasks s2) t"
    by (auto simp: running_def cancel_tasks_def split: option.splits process_pc.splits)
  have seven: "t \<in> active_requests (cancel_tasks s2) \<longrightarrow> holds (worker_task s2) t"
    using mem by (auto simp: cancel_tasks_def membership_inv_def)
  from one two three four five six seven show ?thesis by blast
qed

theorem shutdown_cancels_awaited_futures_witness:
  "\<exists>s. run one_queued (init 1) = Some s \<and> run [] (cancel_worker s) = Some (cancel_worker s)
     \<and> 0 \<in> set (queue (cancel_worker s)) \<and> awaited (cancel_worker s) 0
     \<and> shutdown_bot [] s = Some (cancel_tasks (cancel_worker s))
     \<and> futures (cancel_tasks (cancel_worker s)) 0 = Some Cancelled"
proof -
  have "\<exists>s. run one_queued (init 1) = Some s \<and> queue s = [0] \<and> awaited s 0"
    by (simp add: one_queued_def awaited_def eval_defs)
  then obtain s where s: "run one_queued (init 1) = Some s"
    and q: "queue s = [0]" and a: "awaited s 0" by blast
  have r: "run [] (cancel_worker s) = Some (cancel_worker s)" by simp
  from q have q': "0 \<in> set (queue (cancel_worker s))" by simp
  from a have a': "awaited (cancel_worker s) 0" by simp
  from shutdown_cancels_awaited_futures [OF s r, of 0] q' a' s r show ?thesis by blast
qed

text \<open>
  Claim C3 as stated fails when the submitter is still inside \<^verbatim>\<open>add_request\<close>: in the
  run \<open>unreturned\<close> the request is executing (its \<^verbatim>\<open>process_task\<close> awaits the
  in-progress edit) while the call awaits the edit of the position message; after
  \<^verbatim>\<open>shutdown_bot\<close> the \<^verbatim>\<open>process_task\<close> has ended and the future is still pending.
\<close>

theorem shutdown_leaves_future_pending_counterexample:
  "run unreturned (init 1) \<noteq> None
   \<and> processes (the (run unreturned (init 1))) 0 = Some Notify_in_progress
   \<and> 0 \<in> active_requests (the (run unreturned (init 1)))
   \<and> shutdown_bot [] (the (run unreturned (init 1))) \<noteq> None
   \<and> futures (the (shutdown_bot [] (the (run unreturned (init 1))))) 0 = Some Pending
   \<and> processes (the (shutdown_bot [] (the (run unreturned (init 1))))) 0 = Some Finished"
  by (simp add: unreturned_def shutdown_bot_def cancel_worker_def cancel_tasks_def
      awaited_def running_def eval_defs)

section \<open>The rate limiters: proofs\<close>


lemma acquire_fields [simp]:
  "max_rate (acquire now l) = max_rate l"
  "time_period (acquire now l) = time_period l"
  "rate (acquire now l) = rate l"
  "last_check (acquire now l) = now"
  "level (acquire now l) = max (level l - (now - last_check l) * rate l) 0 + 1"
  by (simp_all add: acquire_def leak_def rate_def)




















end
